theory Spec2Isabelle
  imports Complex_Main "HOL-Library.Word" "HOL-Library.Log_Nat"
begin

section \<open>JavaScript numbers\<close>

text \<open>
  A JavaScript number is a value of IEEE 754 binary64: a finite double, one of the two
  infinities, or NaN. A finite double is modelled by the rational number it denotes; \<open>Finite x\<close>
  stands for a double when \<open>x\<close> is representable, and every operation below rounds its exact
  result, so that the results of operations are representable.

  The sign of zero is not represented. The functions of this development divide only by 60, by
  a positive length and by a number tested to be positive, and otherwise add, multiply, compare
  and print their numbers, none of which tells the two zeros apart; the quotient by zero, where
  the sign would matter, is the one by the positive zero.
\<close>

datatype number = Finite rat | PosInf | NegInf | NaN

text \<open>
  Rounding to the nearest integer, a tie to the even one.
\<close>

definition rne :: "rat \<Rightarrow> int" where
  "rne y =
     (let f = \<lfloor>y\<rfloor>; d = y - of_int f
      in if d < 1 / 2 then f else if 1 / 2 < d then f + 1 else if even f then f else f + 1)"

text \<open>
  The binary exponent \<open>\<lfloor>log\<^sub>2 x\<rfloor>\<close> of a positive rational, from the bit lengths of its numerator
  and denominator.
\<close>

definition ilog2 :: "rat \<Rightarrow> int" where
  "ilog2 x =
     (let (a, b) = quotient_of x; c = bitlen a - bitlen b
      in if 2 powi c \<le> x then c else c - 1)"

text \<open>
  Rounding of an exact result to binary64, to nearest and ties to even: 53 significant bits
  above the exponent \<open>-1022\<close> of the smallest normal number, the fixed spacing \<open>2\<^sup>-\<^sup>1\<^sup>0\<^sup>7\<^sup>4\<close> below it,
  and an infinity from \<open>2\<^sup>1\<^sup>0\<^sup>2\<^sup>4 - 2\<^sup>9\<^sup>7\<^sup>0\<close> on, the midpoint between the largest finite double
  \<open>2\<^sup>1\<^sup>0\<^sup>2\<^sup>4 - 2\<^sup>9\<^sup>7\<^sup>1\<close> and \<open>2\<^sup>1\<^sup>0\<^sup>2\<^sup>4\<close>.
\<close>

definition overflow :: rat where
  "overflow = 2 ^ 1024 - 2 ^ 970"

definition round64 :: "rat \<Rightarrow> number" where
  "round64 x =
     (if x = 0 then Finite 0
      else if overflow \<le> \<bar>x\<bar> then (if 0 < x then PosInf else NegInf)
      else (let e = max (ilog2 \<bar>x\<bar>) (- 1022); q = 2 powi (e - 52)
            in Finite (q * of_int (rne (x / q)))))"

text \<open>
  The arithmetic operators \<open>+\<close>, \<open>-\<close>, \<open>*\<close>, \<open>/\<close>: the exact result rounded, and the rules of
  IEEE 754 for the infinities and NaN.
\<close>

fun signOf :: "number \<Rightarrow> int" where
  "signOf (Finite x) = (if x < 0 then - 1 else if 0 < x then 1 else 0)"
| "signOf PosInf = 1"
| "signOf NegInf = - 1"
| "signOf NaN = 0"

fun js_neg :: "number \<Rightarrow> number" where
  "js_neg (Finite x) = Finite (- x)"
| "js_neg PosInf = NegInf"
| "js_neg NegInf = PosInf"
| "js_neg NaN = NaN"

fun js_add :: "number \<Rightarrow> number \<Rightarrow> number" where
  "js_add (Finite a) (Finite b) = round64 (a + b)"
| "js_add NaN b = NaN"
| "js_add a NaN = NaN"
| "js_add PosInf NegInf = NaN"
| "js_add NegInf PosInf = NaN"
| "js_add PosInf b = PosInf"
| "js_add a PosInf = PosInf"
| "js_add NegInf b = NegInf"
| "js_add a NegInf = NegInf"

definition js_sub :: "number \<Rightarrow> number \<Rightarrow> number" where
  "js_sub a b = js_add a (js_neg b)"

fun js_mul :: "number \<Rightarrow> number \<Rightarrow> number" where
  "js_mul (Finite a) (Finite b) = round64 (a * b)"
| "js_mul NaN b = NaN"
| "js_mul a NaN = NaN"
| "js_mul a b =
     (if signOf a * signOf b = 0 then NaN else if 0 < signOf a * signOf b then PosInf else NegInf)"

fun js_div :: "number \<Rightarrow> number \<Rightarrow> number" where
  "js_div (Finite a) (Finite b) =
     (if b = 0 then (if a = 0 then NaN else if 0 < a then PosInf else NegInf)
      else round64 (a / b))"
| "js_div NaN b = NaN"
| "js_div a NaN = NaN"
| "js_div (Finite a) b = Finite 0"
| "js_div a (Finite b) = (if (b < 0) = (a = NegInf) then PosInf else NegInf)"
| "js_div a b = NaN"

text \<open>
  The comparison \<open>a < b\<close>, false when an operand is NaN; \<open>Math.floor\<close>; \<open>Math.round\<close>, which
  rounds a tie upwards; and the remainder \<open>a % b\<close>, which is exact and has the sign of the
  dividend.
\<close>

fun js_lt :: "number \<Rightarrow> number \<Rightarrow> bool" where
  "js_lt (Finite a) (Finite b) = (a < b)"
| "js_lt NaN b = False"
| "js_lt a NaN = False"
| "js_lt a NegInf = False"
| "js_lt PosInf b = False"
| "js_lt a b = True"

fun js_floor :: "number \<Rightarrow> number" where
  "js_floor (Finite x) = Finite (of_int \<lfloor>x\<rfloor>)"
| "js_floor a = a"

fun js_round :: "number \<Rightarrow> number" where
  "js_round (Finite x) = Finite (of_int \<lfloor>x + 1 / 2\<rfloor>)"
| "js_round a = a"

fun js_rem :: "number \<Rightarrow> number \<Rightarrow> number" where
  "js_rem (Finite a) (Finite b) =
     (if b = 0 then NaN
      else Finite (a - b * of_int (if a / b < 0 then - \<lfloor>- (a / b)\<rfloor> else \<lfloor>a / b\<rfloor>)))"
| "js_rem NaN b = NaN"
| "js_rem a NaN = NaN"
| "js_rem (Finite a) b = Finite a"
| "js_rem a b = NaN"

section \<open>JavaScript strings\<close>

text \<open>
  A JavaScript string is a sequence of UTF-16 code units; \<open>str\<close> embeds an ASCII literal.
\<close>

type_synonym jsstring = "16 word list"

definition str :: "string \<Rightarrow> jsstring" where
  "str s = map of_char s"

definition isDigit :: "16 word \<Rightarrow> bool" where
  "isDigit c = (48 \<le> unat c \<and> unat c \<le> 57)"

definition digitChar :: "nat \<Rightarrow> 16 word" where
  "digitChar d = of_nat (48 + d)"

text \<open>
  \<open>s.split(sep)\<close> for a separator of one code unit: every occurrence separates, so that
  consecutive separators give empty strings and the empty string gives one empty piece.
\<close>

fun js_split :: "16 word \<Rightarrow> jsstring \<Rightarrow> jsstring list" where
  "js_split sep [] = [[]]"
| "js_split sep (c # cs) =
     (if c = sep then [] # js_split sep cs
      else (case js_split sep cs of [] \<Rightarrow> [[c]] | w # ws \<Rightarrow> (c # w) # ws))"

text \<open>
  \<open>Number(s)\<close> on a string of one to fifteen decimal digits is its decimal value, an integer
  below \<open>10\<^sup>1\<^sup>5\<close> and so a double. Every other string (empty, signed, fractional, with an
  exponent, with surrounding blanks, hexadecimal, longer) is outside this embedding: \<open>None\<close>.
\<close>

definition decimalValue :: "jsstring \<Rightarrow> int" where
  "decimalValue s = foldl (\<lambda>a c. 10 * a + (int (unat c) - 48)) 0 s"

definition readDigits :: "jsstring \<Rightarrow> int option" where
  "readDigits s =
     (if s \<noteq> [] \<and> length s \<le> 15 \<and> list_all isDigit s then Some (decimalValue s) else None)"

definition js_Number :: "jsstring \<Rightarrow> number option" where
  "js_Number s = (case readDigits s of None \<Rightarrow> None | Some v \<Rightarrow> Some (Finite (of_int v)))"

text \<open>
  \<^verbatim>\<open>const [hours, minutes] = startTime.split(':').map(Number)\<close>:
  the first two pieces are read as numbers, further pieces are ignored.
\<close>

definition parseTime :: "jsstring \<Rightarrow> (number \<times> number) option" where
  "parseTime s =
     (case map js_Number (js_split 0x3A s) of
        Some hours # Some minutes # _ \<Rightarrow> Some (hours, minutes)
      | _ \<Rightarrow> None)"

text \<open>
  \<open>n.toString()\<close> and \<open>s.padStart(n, fill)\<close>. The string of an integer of magnitude up to
  \<open>2\<^sup>5\<^sup>3\<close> is its decimal numeral, and the three values that are not finite have their names.
  The string of any other number (a fraction or a larger integer, printed with the shortest
  digits that read back as the same double) is not computed here: \<open>None\<close>.
\<close>

fun digitsOf :: "nat \<Rightarrow> jsstring" where
  "digitsOf n = (if n < 10 then [digitChar n] else digitsOf (n div 10) @ [digitChar (n mod 10)])"

declare digitsOf.simps [simp del]

definition decimalString :: "int \<Rightarrow> jsstring" where
  "decimalString i = (if i < 0 then 0x2D # digitsOf (nat (- i)) else digitsOf (nat i))"

fun toString :: "number \<Rightarrow> jsstring option" where
  "toString (Finite x) =
     (if of_int \<lfloor>x\<rfloor> = x \<and> \<bar>x\<bar> \<le> 2 ^ 53 then Some (decimalString \<lfloor>x\<rfloor>) else None)"
| "toString PosInf = Some (str ''Infinity'')"
| "toString NegInf = Some (str ''-Infinity'')"
| "toString NaN = Some (str ''NaN'')"

definition padStart :: "nat \<Rightarrow> jsstring \<Rightarrow> jsstring \<Rightarrow> jsstring" where
  "padStart n fill s =
     (if n \<le> length s \<or> fill = [] then s
      else take (n - length s) (concat (replicate (n - length s) fill)) @ s)"

section \<open>Time arithmetic\<close>

text \<open>
  \<^verbatim>\<open>`${hours.toString().padStart(2, '0')}:${mins.toString().padStart(2, '0')}`\<close>
  The template is \<open>None\<close> when one of the two strings is not computed.
\<close>

definition timeString :: "number \<Rightarrow> number \<Rightarrow> jsstring option" where
  "timeString hours mins =
     (case (toString hours, toString mins) of
        (Some hs, Some ms) \<Rightarrow> Some (padStart 2 (str ''0'') hs @ str '':'' @ padStart 2 (str ''0'') ms)
      | _ \<Rightarrow> None)"

text \<open>
  \<^verbatim>\<open>function calculateEndTime(startTime, duration) {
    const [hours, minutes] = startTime.split(':').map(Number);
    const totalMinutes = hours * 60 + minutes + duration;
    const endHours = Math.floor(totalMinutes / 60) % 24;
    const endMinutes = totalMinutes % 60;
    return `${endHours.toString().padStart(2, '0')}:${endMinutes.toString().padStart(2, '0')}`;
  }\<close>
  Every operation is the one on doubles. The result is \<open>None\<close> when the start time is outside
  the embedding of \<open>Number\<close> or the string of a number is not computed.
\<close>

definition calculateEndTime :: "jsstring \<Rightarrow> number \<Rightarrow> jsstring option" where
  "calculateEndTime startTime duration =
     (case parseTime startTime of
        None \<Rightarrow> None
      | Some (hours, minutes) \<Rightarrow>
          (let totalMinutes = js_add (js_add (js_mul hours (Finite 60)) minutes) duration;
               endHours = js_rem (js_floor (js_div totalMinutes (Finite 60))) (Finite 24);
               endMinutes = js_rem totalMinutes (Finite 60)
           in timeString endHours endMinutes))"

text \<open>
  \<^verbatim>\<open>while (currentMinutes < closeMinutes) {
      const hours = Math.floor(currentMinutes / 60);
      const mins = currentMinutes % 60;
      slots.push(`${hours.toString().padStart(2, '0')}:${mins.toString().padStart(2, '0')}`);
      currentMinutes += interval;
  }\<close>
  The loop may run forever, so it is a partial function: \<open>None\<close> is "does not return".
  A slot is \<open>Some\<close> string, or \<open>None\<close> where the string pushed is not computed; the loop goes on
  in both cases, as in the source.
\<close>

partial_function (option) slotLoop ::
    "number \<Rightarrow> number \<Rightarrow> number \<Rightarrow> jsstring option list \<Rightarrow> jsstring option list option" where
  "slotLoop currentMinutes closeMinutes interval slots =
     (if js_lt currentMinutes closeMinutes
      then slotLoop (js_add currentMinutes interval) closeMinutes interval
             (slots @ [timeString (js_floor (js_div currentMinutes (Finite 60)))
                                  (js_rem currentMinutes (Finite 60))])
      else Some slots)"

declare slotLoop.simps [code]

text \<open>
  \<^verbatim>\<open>function generateTimeSlots(openTime, closeTime, interval = 30) {
    const slots = [];
    const [openHour, openMin] = openTime.split(':').map(Number);
    const [closeHour, closeMin] = closeTime.split(':').map(Number);
    let currentMinutes = openHour * 60 + openMin;
    const closeMinutes = closeHour * 60 + closeMin;
    while (...) { ... }
    return slots;
  }\<close>
  The interval defaults to 30 when the argument is absent (\<open>None\<close>). The outcome is the list of
  slots, no return of the loop, or an input outside the embedding of \<open>Number\<close>.
\<close>

datatype slots_result = Slots "jsstring option list" | NoReturn | OutsideModel

definition generateTimeSlots :: "jsstring \<Rightarrow> jsstring \<Rightarrow> number option \<Rightarrow> slots_result" where
  "generateTimeSlots openTime closeTime interval_arg =
     (let interval = (case interval_arg of None \<Rightarrow> Finite 30 | Some i \<Rightarrow> i) in
      case parseTime openTime of
        None \<Rightarrow> OutsideModel
      | Some (openHour, openMin) \<Rightarrow>
          (case parseTime closeTime of
             None \<Rightarrow> OutsideModel
           | Some (closeHour, closeMin) \<Rightarrow>
               (case slotLoop (js_add (js_mul openHour (Finite 60)) openMin)
                              (js_add (js_mul closeHour (Finite 60)) closeMin) interval [] of
                  None \<Rightarrow> NoReturn
                | Some slots \<Rightarrow> Slots slots)))"

text \<open>
  Specification side: the string \<open>HH:MM\<close> of an hour \<open>h\<close> and a minute \<open>m\<close>, and the string of
  a minute of the day.
\<close>

definition hhmm :: "nat \<Rightarrow> nat \<Rightarrow> jsstring" where
  "hhmm h m = [digitChar (h div 10), digitChar (h mod 10), 0x3A, digitChar (m div 10), digitChar (m mod 10)]"

definition clockString :: "int \<Rightarrow> jsstring" where
  "clockString t = hhmm (nat (t div 60)) (nat (t mod 60))"

section \<open>Form helpers\<close>

text \<open>
  A value that may be \<open>undefined\<close> or \<open>null\<close>.
\<close>

datatype 'a js = Undefined | Null | Val 'a

text \<open>
  White space and line terminators of ECMAScript: what \<open>String.prototype.trim\<close> strips and what
  the regular expression class for white space matches.
\<close>

definition isJsSpace :: "16 word \<Rightarrow> bool" where
  "isJsSpace c =
     (c \<in> set [0x09, 0x0A, 0x0B, 0x0C, 0x0D, 0x20, 0xA0, 0x1680, 0x2028, 0x2029, 0x202F, 0x205F,
                0x3000, 0xFEFF]
      \<or> (0x2000 \<le> c \<and> c \<le> 0x200A))"

definition trim :: "jsstring \<Rightarrow> jsstring" where
  "trim s = rev (dropWhile isJsSpace (rev (dropWhile isJsSpace s)))"

text \<open>
  The time value of a \<open>Date\<close>: milliseconds since the epoch, \<open>None\<close> for an invalid date.
\<close>

type_synonym jstime = "int option"

text \<open>
  The form state of the booking wizard. A selected service is an object (here its reference) or
  \<open>null\<close>; a selected date is a \<open>Date\<close> or \<open>null\<close>.
\<close>

record formData =
  clientName :: "jsstring js"
  clientPhone :: "jsstring js"
  selectedService :: "nat js"
  selectedDate :: "jstime js"
  selectedTime :: "jsstring js"

text \<open>
  Truthiness: a string is truthy when it is not empty, an object always, \<open>undefined\<close> and
  \<open>null\<close> never. \<open>trimmedTruthy x\<close> is \<open>x && x.trim()\<close>.
\<close>

fun truthyString :: "jsstring js \<Rightarrow> bool" where
  "truthyString (Val s) = (s \<noteq> [])"
| "truthyString _ = False"

fun truthyObject :: "'a js \<Rightarrow> bool" where
  "truthyObject (Val _) = True"
| "truthyObject _ = False"

fun trimmedTruthy :: "jsstring js \<Rightarrow> bool" where
  "trimmedTruthy (Val s) = (s \<noteq> [] \<and> trim s \<noteq> [])"
| "trimmedTruthy _ = False"

text \<open>
  \<^verbatim>\<open>function canProceed(step, formData) {
    const { clientName, clientPhone, selectedService, selectedDate, selectedTime } = formData;
    if (step === 1) return !!(clientName && clientName.trim() && clientPhone && clientPhone.trim());
    if (step === 2) return selectedService !== null;
    if (step === 3) return !!(selectedDate && selectedTime);
    return false;
  }\<close>
\<close>

definition canProceed :: "int \<Rightarrow> formData \<Rightarrow> bool" where
  "canProceed step formData =
     (if step = 1 then trimmedTruthy (clientName formData) \<and> trimmedTruthy (clientPhone formData)
      else if step = 2 then selectedService formData \<noteq> Null
      else if step = 3 then truthyObject (selectedDate formData) \<and> truthyString (selectedTime formData)
      else False)"

text \<open>
  \<open>w[0]\<close> is the first code unit of \<open>w\<close>, or \<open>undefined\<close> for the empty string;
  \<open>join('')\<close> writes \<open>undefined\<close> as the empty string.
  \<^verbatim>\<open>function getInitials(name) {
    if (!name) return '';
    return name.split(' ').map(w => w[0]).join('').slice(0, 2);
  }\<close>
\<close>

definition charAt0 :: "jsstring \<Rightarrow> 16 word option" where
  "charAt0 w = (case w of [] \<Rightarrow> None | c # _ \<Rightarrow> Some c)"

definition joinEmpty :: "16 word option list \<Rightarrow> jsstring" where
  "joinEmpty xs = concat (map (\<lambda>x. case x of None \<Rightarrow> [] | Some c \<Rightarrow> [c]) xs)"

definition getInitials :: "jsstring js \<Rightarrow> jsstring" where
  "getInitials name =
     (case name of
        Val s \<Rightarrow> if s = [] then [] else take 2 (joinEmpty (map charAt0 (js_split 0x20 s)))
      | _ \<Rightarrow> [])"

text \<open>
  A small matcher for anchored regular expressions: a sequence of items between \<open>^\<close> and
  \<open>$\<close>, each a character or a character class, taken once, optionally, or a fixed number of
  times. The optional item is tried first and skipped on failure, as a backtracking matcher does.
\<close>

datatype atom = Lit "16 word" | Class "(16 word \<times> 16 word) list"

datatype item = One atom | Opt atom | Times nat atom

fun accepts :: "atom \<Rightarrow> 16 word \<Rightarrow> bool" where
  "accepts (Lit a) c = (c = a)"
| "accepts (Class ranges) c = list_ex (\<lambda>(lo, hi). lo \<le> c \<and> c \<le> hi) ranges"

fun matchItems :: "item list \<Rightarrow> jsstring \<Rightarrow> bool" where
  "matchItems [] s = (s = [])"
| "matchItems (One a # r) s = (case s of [] \<Rightarrow> False | c # cs \<Rightarrow> accepts a c \<and> matchItems r cs)"
| "matchItems (Opt a # r) s =
     ((case s of [] \<Rightarrow> False | c # cs \<Rightarrow> accepts a c \<and> matchItems r cs) \<or> matchItems r s)"
| "matchItems (Times 0 a # r) s = matchItems r s"
| "matchItems (Times (Suc n) a # r) s =
     (case s of [] \<Rightarrow> False | c # cs \<Rightarrow> accepts a c \<and> matchItems (Times n a # r) cs)"

text \<open>
  \<^verbatim>\<open>function isValidPhone(phone) {
    if (!phone) return false;
    const phoneRegex = /^0[5][0-9][-]?[0-9]{7}$/;
    return phoneRegex.test(phone.replace(/<white space>/g, ''));
  }\<close>
\<close>

definition phoneRegex :: "item list" where
  "phoneRegex = [One (Lit 0x30), One (Class [(0x35, 0x35)]), One (Class [(0x30, 0x39)]),
                 Opt (Class [(0x2D, 0x2D)]), Times 7 (Class [(0x30, 0x39)])]"

definition isValidPhone :: "jsstring js \<Rightarrow> bool" where
  "isValidPhone phone =
     (case phone of
        Val s \<Rightarrow> if s = [] then False else matchItems phoneRegex (filter (\<lambda>c. \<not> isJsSpace c) s)
      | _ \<Rightarrow> False)"

text \<open>
  Specification side: the words of a string, separated by runs of separator characters.
\<close>

function wordsBy :: "(16 word \<Rightarrow> bool) \<Rightarrow> jsstring \<Rightarrow> jsstring list" where
  "wordsBy sep s =
     (case dropWhile sep s of
        [] \<Rightarrow> []
      | c # r \<Rightarrow> (c # takeWhile (\<lambda>x. \<not> sep x) r) # wordsBy sep (dropWhile (\<lambda>x. \<not> sep x) r))"
  by pat_completeness auto
termination
proof (relation "measure (\<lambda>(sep, s). length s)")
  show "wf (measure (\<lambda>(sep, s). length s))" by simp
next
  fix sep :: "16 word \<Rightarrow> bool" and s :: jsstring and c r
  assume a: "dropWhile sep s = c # r"
  have "length (dropWhile (\<lambda>x. \<not> sep x) r) \<le> length r" by (rule length_dropWhile_le)
  moreover have "length (c # r) \<le> length s" using length_dropWhile_le [of sep s] a by simp
  ultimately show "((sep, dropWhile (\<lambda>x. \<not> sep x) r), (sep, s)) \<in> measure (\<lambda>(sep, s). length s)"
    by simp
qed

declare wordsBy.simps [simp del]

text \<open>
  A form state used to run \<open>canProceed\<close>.
\<close>

definition sampleForm :: formData where
  "sampleForm = \<lparr>clientName = Val (str ''John''), clientPhone = Val (str ''050-1234567''),
                  selectedService = Null, selectedDate = Val (Some 0), selectedTime = Val []\<rparr>"

section \<open>Period statistics\<close>

text \<open>
  Appointments and the statistics object. Three field names of the source carry a suffix here,
  \<open>id_apt\<close>, \<open>clientName_apt\<close> and \<open>clientPhone_apt\<close>. Prices, durations and amounts of money
  are doubles; the two counts are lengths of arrays, which are integers below \<open>2\<^sup>3\<^sup>2\<close>.
\<close>

record appointment =
  id_apt :: int
  clientName_apt :: jsstring
  clientPhone_apt :: jsstring
  service :: jsstring
  date :: jsstring
  time :: jsstring
  duration :: number
  price :: number
  status :: jsstring

record stats =
  totalIncome :: number
  totalAppointments :: int
  completedAppointments :: int
  avgIncome :: number
  popularService :: jsstring
  incomeChange :: number

text \<open>
  Thrown errors: \<open>new Error(message)\<close>, and the \<open>TypeError\<close> of the language itself.
\<close>

datatype js_error = Error jsstring | TypeError

text \<open>
  What the function takes from its host: the clock (\<open>new Date()\<close>), the parser of date strings
  (\<open>new Date(s)\<close>) and the calendar methods of \<open>Date\<close> in the local time zone. They are
  parameters of the embedding.
\<close>

record js_host =
  clock :: jstime
  parseDate :: "jsstring \<Rightarrow> jstime"
  setHours0 :: "jstime \<Rightarrow> jstime"
  getDate :: "jstime \<Rightarrow> int option"
  setDate :: "jstime \<Rightarrow> int option \<Rightarrow> jstime"
  getMonth :: "jstime \<Rightarrow> int option"
  setMonth :: "jstime \<Rightarrow> int option \<Rightarrow> jstime"
  getFullYear :: "jstime \<Rightarrow> int option"
  setFullYear :: "jstime \<Rightarrow> int option \<Rightarrow> jstime"

text \<open>
  \<open>a >= b\<close> on two dates compares the time values and is false when one is invalid.
\<close>

definition js_ge :: "jstime \<Rightarrow> jstime \<Rightarrow> bool" where
  "js_ge a b = (case (a, b) of (Some x, Some y) \<Rightarrow> y \<le> x | _ \<Rightarrow> False)"

text \<open>
  An object as the list of its own properties in creation order; \<open>obj[k] = v\<close> overwrites in
  place or appends.
\<close>

fun setProp :: "'k \<Rightarrow> 'v \<Rightarrow> ('k \<times> 'v) list \<Rightarrow> ('k \<times> 'v) list" where
  "setProp k v [] = [(k, v)]"
| "setProp k v (p # ps) = (if fst p = k then (k, v) # ps else p # setProp k v ps)"

text \<open>
  \<open>Object.entries\<close> enumerates the keys that are array indices (canonical decimal numerals up to
  \<open>2\<^sup>3\<^sup>2 - 2\<close>) first, in ascending numeric order, then the other keys in creation order.
\<close>

definition arrayIndex :: "jsstring \<Rightarrow> nat option" where
  "arrayIndex s =
     (if s \<noteq> [] \<and> list_all isDigit s \<and> (s = [0x30] \<or> hd s \<noteq> 0x30) \<and> length s \<le> 10
         \<and> decimalValue s \<le> 4294967294
      then Some (nat (decimalValue s)) else None)"

definition Object_entries :: "(jsstring \<times> 'v) list \<Rightarrow> (jsstring \<times> 'v) list" where
  "Object_entries obj =
     sort_key (\<lambda>e. case arrayIndex (fst e) of Some n \<Rightarrow> n | None \<Rightarrow> 0)
       (filter (\<lambda>e. arrayIndex (fst e) \<noteq> None) obj)
     @ filter (\<lambda>e. arrayIndex (fst e) = None) obj"

text \<open>
  \<open>xs.sort(cmp)\<close> is a stable sort by the comparison function; here by insertion.
\<close>

fun insertBy :: "('a \<Rightarrow> 'a \<Rightarrow> int) \<Rightarrow> 'a \<Rightarrow> 'a list \<Rightarrow> 'a list" where
  "insertBy cmp x [] = [x]"
| "insertBy cmp x (y # ys) = (if cmp x y \<le> 0 then x # y # ys else y # insertBy cmp x ys)"

definition js_sort :: "('a \<Rightarrow> 'a \<Rightarrow> int) \<Rightarrow> 'a list \<Rightarrow> 'a list" where
  "js_sort cmp xs = foldr (insertBy cmp) xs []"

text \<open>
  \<^verbatim>\<open>serviceCount[apt.service] = (serviceCount[apt.service] || 0) + 1\<close>
  The lookup is among the own properties. For a key that \<open>Object.prototype\<close> defines
  (\<open>objectPrototypeNames\<close> below) the source finds the inherited member instead and what follows is
  left to the implementation; such keys are outside this embedding.
\<close>

definition countService :: "(jsstring \<times> int) list \<Rightarrow> jsstring \<Rightarrow> (jsstring \<times> int) list" where
  "countService serviceCount k =
     setProp k ((case map_of serviceCount k of
                   None \<Rightarrow> 0
                 | Some c \<Rightarrow> if c = 0 then 0 else c) + 1) serviceCount"

text \<open>
  \<^verbatim>\<open>switch (period) {
      case 'today': startDate = new Date(now); startDate.setHours(0, 0, 0, 0); break;
      case 'week':  startDate.setDate(now.getDate() - 7); break;
      case 'month': startDate.setMonth(now.getMonth() - 1); break;
      case 'year':  startDate.setFullYear(now.getFullYear() - 1); break;
      default: throw new Error(`Invalid period: ${period}`);
  }\<close>
\<close>

definition periodStart :: "js_host \<Rightarrow> jsstring \<Rightarrow> jstime \<Rightarrow> js_error + jstime" where
  "periodStart h period referenceDate =
     (let now = referenceDate; startDate = referenceDate in
      if period = str ''today'' then Inr (setHours0 h now)
      else if period = str ''week''
        then Inr (setDate h startDate (map_option (\<lambda>d. d - 7) (getDate h now)))
      else if period = str ''month''
        then Inr (setMonth h startDate (map_option (\<lambda>m. m - 1) (getMonth h now)))
      else if period = str ''year''
        then Inr (setFullYear h startDate (map_option (\<lambda>y. y - 1) (getFullYear h now)))
      else Inl (Error (str ''Invalid period: '' @ period)))"

text \<open>
  \<^verbatim>\<open>appointments.filter(apt => {
      const aptDate = new Date(apt.date);
      return aptDate >= startDate && apt.status !== 'cancelled';
  })\<close>
\<close>

definition periodAppointments :: "js_host \<Rightarrow> jstime \<Rightarrow> appointment list \<Rightarrow> appointment list" where
  "periodAppointments h startDate appointments =
     filter (\<lambda>apt. js_ge (parseDate h (date apt)) startDate \<and> status apt \<noteq> str ''cancelled'')
       appointments"

text \<open>
  The aggregates over the filtered appointments.
  \<^verbatim>\<open>const totalIncome = periodAppointments.reduce((sum, apt) => sum + apt.price, 0);
  const totalAppointments = periodAppointments.length;
  const completedAppointments = periodAppointments.filter(apt => apt.status === 'completed').length;
  const avgIncome = totalAppointments > 0 ? Math.round(totalIncome / totalAppointments) : 0;
  const serviceCount = {};
  periodAppointments.forEach(apt => { ... });
  const popularService = Object.entries(serviceCount).sort((a, b) => b[1] - a[1])[0];
  const prevTotalIncome = totalIncome * 0.85;
  const incomeChange = prevTotalIncome > 0
      ? Math.round(((totalIncome - prevTotalIncome) / prevTotalIncome) * 100) : 0;\<close>
  The sum, the products, the difference and the quotients are operations on doubles, each
  rounded; the literal \<open>0.85\<close> is the double nearest to 85/100.
\<close>

definition periodStats :: "appointment list \<Rightarrow> stats" where
  "periodStats periodApts =
     (let total = foldl (\<lambda>sum apt. js_add sum (price apt)) (Finite 0) periodApts;
          n = int (length periodApts);
          completed = int (length (filter (\<lambda>apt. status apt = str ''completed'') periodApts));
          avg = (if n > 0 then js_round (js_div total (Finite (of_int n))) else Finite 0);
          serviceCount = foldl (\<lambda>obj apt. countService obj (service apt)) [] periodApts;
          popular = js_sort (\<lambda>a b. snd b - snd a) (Object_entries serviceCount);
          prevTotalIncome = js_mul total (round64 (85 / 100));
          change = (if js_lt (Finite 0) prevTotalIncome
                    then js_round (js_mul (js_div (js_sub total prevTotalIncome) prevTotalIncome)
                                          (Finite 100))
                    else Finite 0)
      in \<lparr>totalIncome = total, totalAppointments = n, completedAppointments = completed,
            avgIncome = avg,
            popularService = (case popular of [] \<Rightarrow> str ''-'' | e # _ \<Rightarrow> fst e),
            incomeChange = change\<rparr>)"

text \<open>
  \<open>getStatsForPeriod(appointments, period, referenceDate = new Date())\<close>.
\<close>

definition getStatsForPeriod ::
    "js_host \<Rightarrow> appointment list \<Rightarrow> jsstring \<Rightarrow> jstime option \<Rightarrow> js_error + stats" where
  "getStatsForPeriod h appointments period referenceDate_arg =
     (let referenceDate = (case referenceDate_arg of None \<Rightarrow> clock h | Some d \<Rightarrow> d) in
      case periodStart h period referenceDate of
        Inl e \<Rightarrow> Inl e
      | Inr startDate \<Rightarrow> Inr (periodStats (periodAppointments h startDate appointments)))"

section \<open>A host in time zone UTC\<close>

text \<open>
  A concrete host, used to run the functions: the calendar algorithms of ECMA-262 with a local
  time zone offset of zero, and a date parser that reads the date-only form \<open>YYYY-MM-DD\<close> as
  midnight UTC and anything else as an invalid date.
\<close>

definition msPerDay :: int where "msPerDay = 86400000"

definition DayFromYear :: "int \<Rightarrow> int" where
  "DayFromYear y = 365 * (y - 1970) + (y - 1969) div 4 - (y - 1901) div 100 + (y - 1601) div 400"

definition InLeapYear :: "int \<Rightarrow> bool" where
  "InLeapYear y = (y mod 4 = 0 \<and> (y mod 100 \<noteq> 0 \<or> y mod 400 = 0))"

definition YearFromDay :: "int \<Rightarrow> int" where
  "YearFromDay d =
     (let y = 1970 + (d * 400) div 146097 in
      if d < DayFromYear y then y - 1 else if DayFromYear (y + 1) \<le> d then y + 1 else y)"

definition monthStarts :: "int \<Rightarrow> int list" where
  "monthStarts y =
     (let l = (if InLeapYear y then 1 else 0) in
      [0, 31, 59 + l, 90 + l, 120 + l, 151 + l, 181 + l, 212 + l, 243 + l, 273 + l, 304 + l, 334 + l])"

definition MonthFromDay :: "int \<Rightarrow> int" where
  "MonthFromDay d =
     (let y = YearFromDay d in
      int (length (filter (\<lambda>s. s \<le> d - DayFromYear y) (monthStarts y))) - 1)"

definition DateFromDay :: "int \<Rightarrow> int" where
  "DateFromDay d =
     (let y = YearFromDay d; dayInYear = d - DayFromYear y
      in dayInYear - last (filter (\<lambda>s. s \<le> dayInYear) (monthStarts y)) + 1)"

definition MakeDay :: "int \<Rightarrow> int \<Rightarrow> int \<Rightarrow> int" where
  "MakeDay year month dt =
     (let ym = year + month div 12; mn = month mod 12
      in DayFromYear ym + monthStarts ym ! nat mn + dt - 1)"

definition TimeClip :: "int \<Rightarrow> jstime" where
  "TimeClip t = (if \<bar>t\<bar> > 8640000000000000 then None else Some t)"

definition utcParse :: "jsstring \<Rightarrow> jstime" where
  "utcParse s =
     (if length s = 10 \<and> s ! 4 = 0x2D \<and> s ! 7 = 0x2D then
        (case (readDigits (take 4 s), readDigits (take 2 (drop 5 s)), readDigits (drop 8 s)) of
           (Some y, Some m, Some d) \<Rightarrow>
             if 1 \<le> m \<and> m \<le> 12 \<and> 1 \<le> d \<and> MonthFromDay (MakeDay y (m - 1) d) = m - 1
             then TimeClip (MakeDay y (m - 1) d * msPerDay) else None
         | _ \<Rightarrow> None)
      else None)"

definition utcSetHours0 :: "jstime \<Rightarrow> jstime" where
  "utcSetHours0 tv = (case tv of None \<Rightarrow> None | Some t \<Rightarrow> TimeClip ((t div msPerDay) * msPerDay))"

definition utcGetDate :: "jstime \<Rightarrow> int option" where
  "utcGetDate tv = (case tv of None \<Rightarrow> None | Some t \<Rightarrow> Some (DateFromDay (t div msPerDay)))"

definition utcSetDate :: "jstime \<Rightarrow> int option \<Rightarrow> jstime" where
  "utcSetDate tv dt =
     (case (tv, dt) of
        (Some t, Some dt) \<Rightarrow>
          TimeClip (MakeDay (YearFromDay (t div msPerDay)) (MonthFromDay (t div msPerDay)) dt
                      * msPerDay + t mod msPerDay)
      | _ \<Rightarrow> None)"

definition utcGetMonth :: "jstime \<Rightarrow> int option" where
  "utcGetMonth tv = (case tv of None \<Rightarrow> None | Some t \<Rightarrow> Some (MonthFromDay (t div msPerDay)))"

definition utcSetMonth :: "jstime \<Rightarrow> int option \<Rightarrow> jstime" where
  "utcSetMonth tv m =
     (case (tv, m) of
        (Some t, Some m) \<Rightarrow>
          TimeClip (MakeDay (YearFromDay (t div msPerDay)) m (DateFromDay (t div msPerDay))
                      * msPerDay + t mod msPerDay)
      | _ \<Rightarrow> None)"

definition utcGetFullYear :: "jstime \<Rightarrow> int option" where
  "utcGetFullYear tv = (case tv of None \<Rightarrow> None | Some t \<Rightarrow> Some (YearFromDay (t div msPerDay)))"

definition utcSetFullYear :: "jstime \<Rightarrow> int option \<Rightarrow> jstime" where
  "utcSetFullYear tv y =
     (case y of
        None \<Rightarrow> None
      | Some y \<Rightarrow>
          (let t = (case tv of None \<Rightarrow> 0 | Some t \<Rightarrow> t) in
           TimeClip (MakeDay y (MonthFromDay (t div msPerDay)) (DateFromDay (t div msPerDay))
                       * msPerDay + t mod msPerDay)))"

definition utcHost :: js_host where
  "utcHost =
     \<lparr>clock = Some 0, parseDate = utcParse, setHours0 = utcSetHours0,
      getDate = utcGetDate, setDate = utcSetDate, getMonth = utcGetMonth, setMonth = utcSetMonth,
      getFullYear = utcGetFullYear, setFullYear = utcSetFullYear\<rparr>"

text \<open>
  The appointments of the test suite (service names in English).
\<close>

definition mkApt :: "int \<Rightarrow> string \<Rightarrow> string \<Rightarrow> int \<Rightarrow> string \<Rightarrow> appointment" where
  "mkApt i d st p sv =
     \<lparr>id_apt = i, clientName_apt = [], clientPhone_apt = [], service = str sv, date = str d,
      time = str ''09:00'', duration = Finite 30, price = Finite (of_int p), status = str st\<rparr>"

definition mockAppointments :: "appointment list" where
  "mockAppointments =
     [mkApt 1 ''2025-01-10'' ''completed'' 100 ''haircut'',
      mkApt 2 ''2025-01-11'' ''completed'' 130 ''haircut + beard'',
      mkApt 3 ''2025-01-12'' ''confirmed'' 70 ''beard'',
      mkApt 4 ''2025-01-13'' ''cancelled'' 180 ''colour'',
      mkApt 5 ''2025-01-14'' ''completed'' 100 ''haircut'']"

text \<open>
  The property names that an empty object inherits from \<open>Object.prototype\<close>.
\<close>

definition objectPrototypeNames :: "jsstring list" where
  "objectPrototypeNames =
     map str [''__proto__'', ''constructor'', ''hasOwnProperty'', ''isPrototypeOf'',
              ''propertyIsEnumerable'', ''toLocaleString'', ''toString'', ''valueOf'',
              ''__defineGetter__'', ''__defineSetter__'', ''__lookupGetter__'', ''__lookupSetter__'']"

text \<open>
  Specification side. \<open>enumeratedBefore names a b\<close>: key \<open>a\<close> is enumerated before key \<open>b\<close> in an
  object whose keys were created in the order of \<open>names\<close>. \<open>mostFrequentFirst names\<close>: the name
  of highest count, the first encountered among several.
\<close>

definition enumeratedBefore :: "jsstring list \<Rightarrow> jsstring \<Rightarrow> jsstring \<Rightarrow> bool" where
  "enumeratedBefore names a b =
     (case (arrayIndex a, arrayIndex b) of
        (Some i, Some j) \<Rightarrow> i < j
      | (Some i, None) \<Rightarrow> True
      | (None, Some j) \<Rightarrow> False
      | (None, None) \<Rightarrow> a \<in> set (takeWhile (\<lambda>x. x \<noteq> b) names))"

definition mostFrequentFirst :: "jsstring list \<Rightarrow> jsstring" where
  "mostFrequentFirst names =
     (case filter (\<lambda>k. list_all (\<lambda>j. count_list names j \<le> count_list names k) names) names of
        [] \<Rightarrow> str ''-''
      | k # _ \<Rightarrow> k)"

text \<open>
  Two appointments in the window whose services are the numerals 2 and 1.
\<close>

definition tieAppointments :: "appointment list" where
  "tieAppointments =
     [mkApt 1 ''2025-01-10'' ''confirmed'' 100 ''2'', mkApt 2 ''2025-01-11'' ''confirmed'' 100 ''1'']"

text \<open>
  Two appointments in the window whose prices are \<open>2\<^sup>1\<^sup>0\<^sup>2\<^sup>3\<close>, a double of about \<open>9 \<sqdot> 10\<^sup>3\<^sup>0\<^sup>7\<close>.
\<close>

definition largeAppointments :: "appointment list" where
  "largeAppointments =
     [mkApt 1 ''2025-01-10'' ''confirmed'' (2 ^ 1023) ''haircut'',
      mkApt 2 ''2025-01-11'' ''confirmed'' (2 ^ 1023) ''haircut'']"

text \<open>
  An appointment in the window whose price is not a number.
\<close>

definition unpricedAppointments :: "appointment list" where
  "unpricedAppointments = [(mkApt 1 ''2025-01-10'' ''confirmed'' 0 ''haircut'')\<lparr>price := NaN\<rparr>]"

text \<open>
  Auxiliary notions of the proofs: the first entry of highest count, and the distinct elements of
  a list in the order of their first occurrence.
\<close>

fun bestEntry :: "('k \<times> int) list \<Rightarrow> ('k \<times> int) option" where
  "bestEntry [] = None"
| "bestEntry (x # xs) =
     (case bestEntry xs of None \<Rightarrow> Some x | Some y \<Rightarrow> if snd y \<le> snd x then Some x else Some y)"

definition firstSeen :: "'a list \<Rightarrow> 'a list" where
  "firstSeen names = rev (remdups (rev names))"

section \<open>Working hours\<close>

text \<open>
  Arrays and objects live in a store, so that sharing between the old and the new list of
  working hours is visible: a heap is a list of cells, an address is an index into it, and
  allocation appends a cell.
\<close>

type_synonym addr = nat

datatype jsval = VUndefined | VNull | VBool bool | VNum number | VStr jsstring | VRef addr

datatype cell = Array "jsval list" | Object "(jsstring \<times> jsval) list"

type_synonym heap = "cell list"

definition alloc :: "heap \<Rightarrow> cell \<Rightarrow> heap \<times> addr" where
  "alloc h c = (h @ [c], length h)"

text \<open>
  The own enumerable properties that an object spread \<open>{...v}\<close> copies: the properties of an
  object, the indexed elements of an array or string, nothing for other values.
\<close>

definition indexKeys :: "'a list \<Rightarrow> (jsstring \<times> 'a) list" where
  "indexKeys xs = zip (map (\<lambda>i. decimalString (int i)) [0..<length xs]) xs"

definition ownProps :: "heap \<Rightarrow> jsval \<Rightarrow> (jsstring \<times> jsval) list" where
  "ownProps h v =
     (case v of
        VRef a \<Rightarrow>
          (if a < length h
           then (case h ! a of Object ps \<Rightarrow> ps | Array xs \<Rightarrow> indexKeys xs)
           else [])
      | VStr s \<Rightarrow> indexKeys (map (\<lambda>c. VStr [c]) s)
      | _ \<Rightarrow> [])"

text \<open>
  \<open>xs[idx] = v\<close> replaces an element in range and extends the array otherwise (the holes read
  as \<open>undefined\<close>); \<open>xs[idx]\<close> out of range is \<open>undefined\<close>.
\<close>

definition storeAt :: "jsval list \<Rightarrow> nat \<Rightarrow> jsval \<Rightarrow> jsval list" where
  "storeAt xs idx v =
     (if idx < length xs then xs[idx := v]
      else xs @ replicate (idx - length xs) VUndefined @ [v])"

definition readAt :: "jsval list \<Rightarrow> nat \<Rightarrow> jsval" where
  "readAt xs idx = (if idx < length xs then xs ! idx else VUndefined)"

text \<open>
  \<^verbatim>\<open>function updateHour(hours, idx, field, value) {
    const updated = [...hours];
    updated[idx] = { ...updated[idx], [field]: value };
    return updated;
  }\<close>
  Spreading something that is not an array throws a \<open>TypeError\<close>.
\<close>

definition updateHour :: "heap \<Rightarrow> addr \<Rightarrow> nat \<Rightarrow> jsstring \<Rightarrow> jsval \<Rightarrow> js_error + heap \<times> addr" where
  "updateHour h hours idx field val =
     (if hours < length h then
        (case h ! hours of
           Array xs \<Rightarrow>
             (let (h1, updated) = alloc h (Array xs);
                  (h2, entry) = alloc h1 (Object (setProp field val (ownProps h1 (readAt xs idx))))
              in Inr (h2[updated := Array (storeAt xs idx (VRef entry))], updated))
         | Object ps \<Rightarrow> Inl TypeError)
      else Inl TypeError)"

text \<open>
  The working hours of the test suite.
\<close>

definition hourEntry :: "string \<Rightarrow> string \<Rightarrow> string \<Rightarrow> bool \<Rightarrow> cell" where
  "hourEntry d opn cls isOpen =
     Object [(str ''day'', VStr (str d)), (str ''open'', VStr (str opn)),
             (str ''close'', VStr (str cls)), (str ''isOpen'', VBool isOpen)]"

definition mockHours :: heap where
  "mockHours =
     [hourEntry ''Sunday'' ''09:00'' ''19:00'' True,
      hourEntry ''Monday'' ''09:00'' ''19:00'' True,
      hourEntry ''Saturday'' '''' '''' False,
      Array [VRef 0, VRef 1, VRef 2]]"

section \<open>Proofs\<close>

subsection \<open>Rounding to binary64\<close>

lemma rne_of_int: "rne (of_int k) = k"
  by (simp add: rne_def)

lemma floor_rat_numeral: "\<lfloor>numeral a / numeral b :: rat\<rfloor> = numeral a div numeral b"
  using floor_divide_of_int_eq [of "numeral a" "numeral b", where ?'a = rat] by simp

lemma rne_error: "\<bar>of_int (rne y) - y\<bar> \<le> 1 / 2"
proof -
  have "of_int \<lfloor>y\<rfloor> \<le> y" "y < of_int \<lfloor>y\<rfloor> + 1" by linarith+
  then show ?thesis by (auto simp: rne_def Let_def)
qed

lemma rne_nonneg: "0 \<le> y \<Longrightarrow> 0 \<le> rne y"
  by (auto simp: rne_def Let_def)

lemma rne_nonpos: "y \<le> 0 \<Longrightarrow> rne y \<le> 0"
proof -
  assume y: "y \<le> 0"
  have "of_int (rne y) \<le> y + 1 / 2" using rne_error [of y] by linarith
  then have "(of_int (rne y) :: rat) < 1" using y by linarith
  then show ?thesis by linarith
qed

lemma ilog2_bounds:
  assumes "0 < x"
  shows "2 powi ilog2 x \<le> x \<and> x < 2 powi (ilog2 x + 1)"
proof -
  obtain a b where q: "quotient_of x = (a, b)" by (cases "quotient_of x")
  then have b: "0 < b" using quotient_of_denom_pos by blast
  have x: "x = of_int a / of_int b" using q by (rule quotient_of_div)
  then have a: "0 < a" using assms b by (simp add: zero_less_divide_iff)
  define la lb where "la = bitlen a" and "lb = bitlen b"
  have la1: "1 \<le> la" and lb1: "1 \<le> lb"
    using a b bitlen_eq_zero_iff [of a] bitlen_eq_zero_iff [of b] bitlen_nonneg [of a] bitlen_nonneg [of b]
    unfolding la_def lb_def by linarith+
  have "2 ^ nat (la - 1) \<le> a" "a < 2 ^ nat la" "2 ^ nat (lb - 1) \<le> b" "b < 2 ^ nat lb"
    using bitlen_bounds [OF a] bitlen_bounds [OF b] unfolding la_def lb_def by simp_all
  then have ra: "(2::rat) ^ nat (la - 1) \<le> of_int a" "(of_int a :: rat) < 2 ^ nat la"
    and rb: "(2::rat) ^ nat (lb - 1) \<le> of_int b" "(of_int b :: rat) < 2 ^ nat lb"
    by (metis of_int_le_iff of_int_numeral of_int_power, metis of_int_less_iff of_int_numeral of_int_power,
        metis of_int_le_iff of_int_numeral of_int_power, metis of_int_less_iff of_int_numeral of_int_power)
  have pa: "(2::rat) ^ nat (la - 1) = 2 powi (la - 1)" "(2::rat) ^ nat la = 2 powi la"
    and pb: "(2::rat) ^ nat (lb - 1) = 2 powi (lb - 1)" "(2::rat) ^ nat lb = 2 powi lb"
    using la1 lb1 by (simp_all add: power_int_def)
  have bpos: "0 < (of_int b :: rat)" using b by simp
  have upper: "x < 2 powi (la - lb + 1)"
  proof -
    have "x < 2 powi la / of_int b" unfolding x using ra(2) bpos pa by (simp add: divide_strict_right_mono)
    also have "\<dots> \<le> 2 powi la / 2 powi (lb - 1)"
    proof (rule divide_left_mono)
      show "2 powi (lb - 1) \<le> (of_int b :: rat)" using rb(1) pb by simp
      show "0 \<le> (2::rat) powi la" by simp
      show "0 < (of_int b :: rat) * 2 powi (lb - 1)" using bpos by simp
    qed
    also have "\<dots> = 2 powi (la - (lb - 1))" using power_int_diff [of "2::rat" la "lb - 1"] by simp
    also have "la - (lb - 1) = la - lb + 1" by simp
    finally show ?thesis .
  qed
  have lower: "2 powi (la - lb - 1) < x"
  proof -
    have e: "la - lb - 1 = (la - 1) - lb" by simp
    have "2 powi (la - lb - 1) = 2 powi (la - 1) / (2 powi lb :: rat)"
      by (subst e, rule power_int_diff) simp
    also have "\<dots> < 2 powi (la - 1) / of_int b"
      using rb(2) pb bpos by (intro divide_strict_left_mono) simp_all
    also have "\<dots> \<le> x" unfolding x using ra(1) pa bpos by (simp add: divide_right_mono)
    finally show ?thesis .
  qed
  show ?thesis
  proof (cases "2 powi (la - lb) \<le> x")
    case True
    then have "ilog2 x = la - lb" by (simp add: ilog2_def q la_def lb_def)
    then show ?thesis using True upper by simp
  next
    case False
    then have "ilog2 x = la - lb - 1" by (simp add: ilog2_def q la_def lb_def)
    then show ?thesis using False lower by simp
  qed
qed

lemma ilog2_less:
  assumes "0 < x" "x < 2 powi k"
  shows "ilog2 x < k"
proof (rule ccontr)
  assume "\<not> ilog2 x < k"
  then have "(2::rat) powi k \<le> 2 powi ilog2 x" by (intro power_int_increasing) simp_all
  then show False using ilog2_bounds [OF assms(1)] assms(2) by linarith
qed

lemma ilog2_ge:
  assumes "0 < x" "2 powi k \<le> x"
  shows "k \<le> ilog2 x"
proof (rule ccontr)
  assume "\<not> k \<le> ilog2 x"
  then have "(2::rat) powi (ilog2 x + 1) \<le> 2 powi k" by (intro power_int_increasing) simp_all
  then show False using ilog2_bounds [OF assms(1)] assms(2) by linarith
qed

lemma ilog2_unique:
  assumes "0 < x" "2 powi e \<le> x" "x < 2 powi (e + 1)"
  shows "ilog2 x = e"
  using ilog2_less [OF assms(1,3)] ilog2_ge [OF assms(1,2)] by simp

lemma overflow_big: "2 ^ 1000 < overflow"
  by (simp add: overflow_def)

lemma overflow_pos: "0 < overflow"
  using overflow_big by (rule order.strict_trans [rotated]) simp

lemma pow2_nonneg: "0 \<le> k \<Longrightarrow> (2::rat) powi k = of_int (2 ^ nat k)"
  by (simp add: power_int_def)

lemma pow2_pos: "0 < (2::rat) powi k"
  by (simp add: zero_less_power_int)

lemma rne_ge_int:
  assumes "of_int k \<le> y"
  shows "k \<le> rne y"
proof -
  have "k \<le> \<lfloor>y\<rfloor>" using assms by (simp add: le_floor_iff)
  then show ?thesis by (auto simp: rne_def Let_def)
qed

lemma rne_le_int:
  assumes "y \<le> of_int k"
  shows "rne y \<le> k"
proof (cases "y = of_int k")
  case True
  then show ?thesis by (simp add: rne_of_int)
next
  case False
  then have "y < of_int k" using assms by simp
  then have "\<lfloor>y\<rfloor> < k" by (simp add: floor_less_iff)
  then show ?thesis by (auto simp: rne_def Let_def)
qed

lemma round64_pos:
  assumes "0 < x" "x < overflow"
  shows "round64 x =
           Finite (2 powi (max (ilog2 x) (- 1022) - 52)
                     * of_int (rne (x / 2 powi (max (ilog2 x) (- 1022) - 52))))"
  using assms by (simp add: round64_def Let_def)

lemma round64_neg:
  assumes "x < 0" "- x < overflow"
  shows "round64 x =
           Finite (2 powi (max (ilog2 (- x)) (- 1022) - 52)
                     * of_int (rne (x / 2 powi (max (ilog2 (- x)) (- 1022) - 52))))"
  using assms by (simp add: round64_def Let_def)

lemma round64_eval:
  assumes "0 < x" "x < overflow" "2 powi e \<le> x" "x < 2 powi (e + 1)" "- 1022 \<le> e"
  shows "round64 x = Finite (2 powi (e - 52) * of_int (rne (x / 2 powi (e - 52))))"
proof -
  have "ilog2 x = e" using assms by (intro ilog2_unique) simp_all
  then show ?thesis using assms by (simp add: round64_pos max_def)
qed

text \<open>A number \<open>m \<sqdot> 2\<^sup>k\<close> with \<open>|m| < 2\<^sup>5\<^sup>3\<close> and \<open>k \<ge> -1074\<close> is a double: rounding leaves it.\<close>

lemma round64_exact_pos:
  assumes m: "0 < m" "m < 2 ^ 53" and k: "- 1074 \<le> k" and o: "of_int m * 2 powi k < overflow"
  shows "round64 (of_int m * 2 powi k) = Finite (of_int m * 2 powi k)"
proof -
  define x :: rat where "x = of_int m * 2 powi k"
  define e where "e = max (ilog2 x) (- 1022)"
  define q :: rat where "q = 2 powi (e - 52)"
  have xpos: "0 < x" using m pow2_pos [of k] by (simp add: x_def)
  have "x < 2 ^ 53 * 2 powi k"
  proof -
    have "(of_int m :: rat) < 2 ^ 53" using m(2) by (metis of_int_less_iff of_int_numeral of_int_power)
    then show ?thesis unfolding x_def using pow2_pos [of k] by (simp add: mult_strict_right_mono)
  qed
  also have "\<dots> = 2 powi (53 + k)" using power_int_add [of "2::rat" 53 k] by simp
  finally have "ilog2 x < 53 + k" using xpos by (intro ilog2_less)
  then have d: "0 \<le> k - (e - 52)" using k by (simp add: e_def)
  have qpos: "0 < q" by (simp add: q_def pow2_pos)
  have "2 powi k / q = 2 powi (k - (e - 52))"
    unfolding q_def using power_int_diff [of "2::rat" k "e - 52"] by simp
  also have "\<dots> = of_int (2 ^ nat (k - (e - 52)))" using d by (rule pow2_nonneg)
  finally have "2 powi k / q = (of_int (2 ^ nat (k - (e - 52))) :: rat)" .
  moreover have "x / q = of_int m * (2 powi k / q)" by (simp add: x_def)
  ultimately have xq: "x / q = of_int (m * 2 ^ nat (k - (e - 52)))" by simp
  then have "rne (x / q) = m * 2 ^ nat (k - (e - 52))" by (simp only: rne_of_int)
  then have "q * of_int (rne (x / q)) = q * (x / q)" using xq by simp
  also have "\<dots> = x" using qpos by simp
  finally have "round64 x = Finite x"
    using round64_pos [of x] xpos o unfolding x_def [symmetric] e_def [symmetric] q_def [symmetric]
    by simp
  then show ?thesis by (simp add: x_def)
qed

lemma rne_minus: "rne (- y) = - rne y"
proof -
  have "rne z = - rne (- z)" if "of_int \<lfloor>z\<rfloor> = z" for z
  proof -
    have "rne (of_int \<lfloor>z\<rfloor>) = - rne (- of_int \<lfloor>z\<rfloor>)"
      using rne_of_int [of "\<lfloor>z\<rfloor>"] rne_of_int [of "- \<lfloor>z\<rfloor>"] by simp
    then show ?thesis unfolding that .
  qed
  moreover have "rne (- z) = - rne z" if n: "of_int \<lfloor>z\<rfloor> \<noteq> z" for z
  proof -
    have f: "\<lfloor>- z\<rfloor> = - \<lfloor>z\<rfloor> - 1" using n by (simp add: floor_minus ceiling_altdef)
    have "of_int \<lfloor>z\<rfloor> \<le> z" by simp
    then have "of_int \<lfloor>z\<rfloor> < z" using n by linarith
    then show ?thesis by (auto simp: rne_def Let_def f)
  qed
  ultimately show ?thesis by (cases "of_int \<lfloor>y\<rfloor> = y") auto
qed

lemma round64_minus: "round64 (- x) = js_neg (round64 x)"
proof -
  have "- (a / b) = (- a) / b" for a b :: rat by simp
  then show ?thesis
    by (simp add: round64_def Let_def rne_minus del: minus_divide_left)
qed

lemma round64_exact:
  assumes m: "\<bar>m\<bar> < 2 ^ 53" and k: "- 1074 \<le> k" and o: "\<bar>of_int m\<bar> * 2 powi k < overflow"
  shows "round64 (of_int m * 2 powi k) = Finite (of_int m * 2 powi k)"
proof -
  consider "m = 0" | "0 < m" | "m < 0" by linarith
  then show ?thesis
  proof cases
    case 1
    then show ?thesis by (simp add: round64_def)
  next
    case 2
    then show ?thesis using round64_exact_pos [of m k] assms by simp
  next
    case 3
    then have "round64 (of_int (- m) * 2 powi k) = Finite (of_int (- m) * 2 powi k)"
      using assms by (intro round64_exact_pos) simp_all
    then have "round64 (- (of_int m * 2 powi k)) = Finite (- (of_int m * 2 powi k))" by simp
    then show ?thesis unfolding round64_minus by (cases "round64 (of_int m * 2 powi k)") simp_all
  qed
qed

lemma round64_int:
  assumes "\<bar>n\<bar> \<le> 2 ^ 53"
  shows "round64 (of_int n) = Finite (of_int n)"
proof (cases "\<bar>n\<bar> = 2 ^ 53")
  case False
  then have "\<bar>n\<bar> < 2 ^ 53" using assms by simp
  moreover have "\<bar>of_int n :: rat\<bar> < 2 ^ 53"
    using calculation by (metis of_int_abs of_int_less_iff of_int_numeral of_int_power)
  then have "\<bar>of_int n :: rat\<bar> < overflow" using overflow_big by simp
  ultimately show ?thesis using round64_exact [of n 0] by simp
next
  case True
  then consider "n = 2 ^ 53" | "n = - (2 ^ 53)" by linarith
  then show ?thesis
  proof cases
    case 1
    have "(2::rat) ^ 53 < overflow" using overflow_big by simp
    then show ?thesis using round64_exact [of 1 53] by (simp add: 1)
  next
    case 2
    have "(2::rat) ^ 53 < overflow" using overflow_big by simp
    then show ?thesis using round64_exact [of "- 1" 53] by (simp add: 2)
  qed
qed

text \<open>Rounding keeps the sign and does not cross an integer below \<open>2\<^sup>5\<^sup>3\<close>.\<close>

lemma round64_nonpos:
  assumes "x \<le> 0"
  shows "round64 x = NegInf \<or> (\<exists>y. round64 x = Finite y \<and> y \<le> 0)"
proof -
  have "(2::rat) powi k * of_int (rne (x / 2 powi k)) \<le> 0" for k
  proof -
    have "x / 2 powi k \<le> 0" using assms pow2_pos [of k] by (simp add: divide_le_0_iff)
    then have "rne (x / 2 powi k) \<le> 0" by (rule rne_nonpos)
    then show ?thesis using pow2_pos [of k] by (simp add: mult_le_0_iff)
  qed
  then show ?thesis using assms by (simp add: round64_def Let_def)
qed

lemma round64_nonneg:
  assumes "0 \<le> x"
  shows "round64 x = PosInf \<or> (\<exists>y. round64 x = Finite y \<and> 0 \<le> y)"
proof -
  have "0 \<le> (2::rat) powi k * of_int (rne (x / 2 powi k))" for k
  proof -
    have "0 \<le> x / 2 powi k" using assms pow2_pos [of k] by simp
    then have "0 \<le> rne (x / 2 powi k)" by (rule rne_nonneg)
    then show ?thesis using pow2_pos [of k] by simp
  qed
  then show ?thesis using assms by (simp add: round64_def Let_def)
qed

lemma round64_between:
  assumes x: "0 < x" "x < 2 ^ 53" and a: "of_int a \<le> x" and b: "x \<le> of_int b"
  shows "\<exists>y. round64 x = Finite y \<and> of_int a \<le> y \<and> y \<le> of_int b"
proof -
  define e where "e = max (ilog2 x) (- 1022)"
  define q :: rat where "q = 2 powi (e - 52)"
  have o: "x < overflow" using x(2) overflow_big by simp
  have r: "round64 x = Finite (q * of_int (rne (x / q)))"
    unfolding q_def e_def using x(1) o by (rule round64_pos)
  have "x < 2 powi 53" using x(2) by simp
  then have "ilog2 x < 53" using x(1) by (intro ilog2_less)
  then have e: "0 \<le> 52 - e" by (simp add: e_def)
  have qpos: "0 < q" by (simp add: q_def pow2_pos)
  have "1 / q = 2 powi (0 - (e - 52))"
    unfolding q_def using power_int_diff [of "2::rat" 0 "e - 52"] by simp
  also have "\<dots> = of_int (2 ^ nat (52 - e))" using pow2_nonneg [OF e] by simp
  finally have inv: "1 / q = of_int (2 ^ nat (52 - e))" .
  have scale: "of_int c / q = of_int (c * 2 ^ nat (52 - e))" for c
  proof -
    have "of_int c / q = of_int c * (1 / q)" by simp
    then show ?thesis unfolding inv by simp
  qed
  have "of_int (a * 2 ^ nat (52 - e)) \<le> x / q"
    unfolding scale [symmetric] using a qpos by (simp add: divide_right_mono)
  then have "a * 2 ^ nat (52 - e) \<le> rne (x / q)" by (rule rne_ge_int)
  then have "(of_int (a * 2 ^ nat (52 - e)) :: rat) \<le> of_int (rne (x / q))" by (simp only: of_int_le_iff)
  then have "q * (of_int a / q) \<le> q * of_int (rne (x / q))"
    unfolding scale using qpos by (intro mult_left_mono) simp_all
  then have lo: "of_int a \<le> q * of_int (rne (x / q))" using qpos by simp
  have "x / q \<le> of_int (b * 2 ^ nat (52 - e))"
    unfolding scale [symmetric] using b qpos by (simp add: divide_right_mono)
  then have "rne (x / q) \<le> b * 2 ^ nat (52 - e)" by (rule rne_le_int)
  then have "(of_int (rne (x / q)) :: rat) \<le> of_int (b * 2 ^ nat (52 - e))" by (simp only: of_int_le_iff)
  then have "q * of_int (rne (x / q)) \<le> q * (of_int b / q)"
    unfolding scale using qpos by (intro mult_left_mono) simp_all
  then have hi: "q * of_int (rne (x / q)) \<le> of_int b" using qpos by simp
  show ?thesis using r lo hi by simp
qed

text \<open>The rounding error: absolute below a power of two, relative in the normal range.\<close>

lemma round64_abs_error:
  assumes x: "0 < x" "x < overflow" and k: "x < 2 powi k" "- 1021 \<le> k"
  shows "\<exists>y. round64 x = Finite y \<and> \<bar>y - x\<bar> \<le> 2 powi (k - 54)"
proof -
  define e where "e = max (ilog2 x) (- 1022)"
  define q :: rat where "q = 2 powi (e - 52)"
  have r: "round64 x = Finite (q * of_int (rne (x / q)))"
    unfolding q_def e_def using x by (rule round64_pos)
  have "ilog2 x < k" using x(1) k(1) by (rule ilog2_less)
  then have e: "e - 52 \<le> k - 53" using k(2) by (simp add: e_def)
  have qpos: "0 < q" by (simp add: q_def pow2_pos)
  have "q * of_int (rne (x / q)) - x = q * (of_int (rne (x / q)) - x / q)"
    using qpos by (simp add: algebra_simps)
  then have "\<bar>q * of_int (rne (x / q)) - x\<bar> = q * \<bar>of_int (rne (x / q)) - x / q\<bar>"
    using qpos by (simp add: abs_mult)
  also have "\<dots> \<le> q * (1 / 2)" using rne_error [of "x / q"] qpos by (intro mult_left_mono) simp_all
  also have "\<dots> \<le> 2 powi (k - 53) * (1 / 2)"
    unfolding q_def using e by (intro mult_right_mono power_int_increasing) simp_all
  also have "\<dots> = 2 powi (k - 54)" using power_int_diff [of "2::rat" "k - 53" 1] by simp
  finally show ?thesis using r by simp
qed

lemma round64_rel_error:
  assumes x: "2 powi (- 1022) \<le> x" "x < overflow"
  shows "\<exists>y. round64 x = Finite y \<and> \<bar>y - x\<bar> \<le> x / 2 ^ 53"
proof -
  have xpos: "0 < x" using x(1) pow2_pos [of "- 1022"] by linarith
  have b: "2 powi ilog2 x \<le> x" "x < 2 powi (ilog2 x + 1)" using ilog2_bounds [OF xpos] by simp_all
  have "- 1022 \<le> ilog2 x" using xpos x(1) by (rule ilog2_ge)
  then have "- 1021 \<le> ilog2 x + 1" by simp
  from round64_abs_error [OF xpos x(2) b(2) this]
  obtain y where y: "round64 x = Finite y" "\<bar>y - x\<bar> \<le> 2 powi (ilog2 x + 1 - 54)" by blast
  have "2 powi (ilog2 x + 1 - 54) = 2 powi ilog2 x / (2::rat) ^ 53"
    using power_int_diff [of "2::rat" "ilog2 x" 53] by simp
  also have "\<dots> \<le> x / 2 ^ 53" using b(1) by (simp add: divide_right_mono)
  finally show ?thesis using y by force
qed

lemma round64_ge_pow:
  assumes "2 powi k \<le> x" "- 1022 \<le> k"
  shows "round64 x = PosInf \<or> (\<exists>y. round64 x = Finite y \<and> 2 powi k \<le> y)"
proof (cases "x < overflow")
  case False
  moreover have "0 < x" using assms(1) pow2_pos [of k] by linarith
  ultimately show ?thesis by (simp add: round64_def)
next
  case True
  have xpos: "0 < x" using assms(1) pow2_pos [of k] by linarith
  define e where "e = max (ilog2 x) (- 1022)"
  define q :: rat where "q = 2 powi (e - 52)"
  have r: "round64 x = Finite (q * of_int (rne (x / q)))"
    unfolding q_def e_def using xpos True by (rule round64_pos)
  have ke: "k \<le> ilog2 x" using xpos assms(1) by (rule ilog2_ge)
  then have e: "e = ilog2 x" using assms(2) by (simp add: e_def)
  have qpos: "0 < q" by (simp add: q_def pow2_pos)
  have "2 powi e / q = 2 powi (e - (e - 52))"
    unfolding q_def using power_int_diff [of "2::rat" e "e - 52"] by simp
  then have s: "2 powi e / q = of_int (2 ^ 52)" by simp
  have "2 powi e \<le> x" unfolding e using ilog2_bounds [OF xpos] by simp
  then have "of_int (2 ^ 52) \<le> x / q" unfolding s [symmetric] using qpos by (simp add: divide_right_mono)
  then have "2 ^ 52 \<le> rne (x / q)" by (rule rne_ge_int)
  then have "(of_int (2 ^ 52) :: rat) \<le> of_int (rne (x / q))" by (simp only: of_int_le_iff)
  then have "q * (2 powi e / q) \<le> q * of_int (rne (x / q))"
    unfolding s using qpos by (intro mult_left_mono) simp_all
  then have "2 powi e \<le> q * of_int (rne (x / q))" using qpos by simp
  moreover have "(2::rat) powi k \<le> 2 powi e" unfolding e using ke by (intro power_int_increasing) simp_all
  ultimately show ?thesis using r by simp
qed

text \<open>A finite result of rounding is below the overflow threshold.\<close>

lemma round64_bounded_pos:
  assumes x: "0 < x" and r: "round64 x = Finite y"
  shows "0 \<le> y \<and> y < overflow"
proof -
  have o: "x < overflow" using x r by (auto simp: round64_def split: if_splits)
  define e where "e = max (ilog2 x) (- 1022)"
  define q :: rat where "q = 2 powi (e - 52)"
  define R where "R = rne (x / q)"
  have y: "y = q * of_int R"
    using round64_pos [OF x o] r unfolding q_def e_def R_def by simp
  have qpos: "0 < q" by (simp add: q_def pow2_pos)
  have "0 \<le> x / q" using x qpos by simp
  then have "0 \<le> R" unfolding R_def by (rule rne_nonneg)
  then have y0: "0 \<le> y" unfolding y using qpos by simp
  have "2 powi 1024 \<le> x" if "1024 \<le> ilog2 x"
  proof -
    have "(2::rat) powi 1024 \<le> 2 powi ilog2 x" using that by (intro power_int_increasing) simp_all
    then show ?thesis using ilog2_bounds [OF x] by linarith
  qed
  moreover have "overflow < 2 powi 1024" by (simp add: overflow_def)
  ultimately have "ilog2 x \<le> 1023" using o by fastforce
  then have e: "e \<le> 1023" by (simp add: e_def)
  have xe: "x < 2 powi (e + 1)"
  proof -
    have "(2::rat) powi (ilog2 x + 1) \<le> 2 powi (e + 1)"
      by (intro power_int_increasing) (simp_all add: e_def)
    then show ?thesis using ilog2_bounds [OF x] by linarith
  qed
  have s: "2 powi (e + 1) / q = 2 ^ 53"
    unfolding q_def using power_int_diff [of "2::rat" "e + 1" "e - 52"] by simp
  have "y < overflow"
  proof (cases "e \<le> 1022")
    case True
    have "x / q \<le> 2 powi (e + 1) / q" using xe qpos by (simp add: divide_right_mono)
    then have "x / q \<le> of_int (2 ^ 53)" unfolding s by simp
    then have "R \<le> 2 ^ 53" unfolding R_def by (rule rne_le_int)
    then have "(of_int R :: rat) \<le> of_int (2 ^ 53)" by (simp only: of_int_le_iff)
    then have "y \<le> q * (2 powi (e + 1) / q)" unfolding y s using qpos by (intro mult_left_mono) simp_all
    then have "y \<le> 2 powi (e + 1)" using qpos by simp
    also have "\<dots> \<le> 2 powi 1023" using True by (intro power_int_increasing) simp_all
    also have "\<dots> < overflow" by (simp add: overflow_def)
    finally show ?thesis .
  next
    case False
    then have e1023: "e = 1023" using e by simp
    have q971: "q = 2 ^ 971" unfolding q_def e1023 by simp
    have "x / q < overflow / q" using o qpos by (simp add: divide_strict_right_mono)
    also have "overflow / q = 2 ^ 53 - 1 / 2" unfolding q971 overflow_def by simp
    finally have "x / q < 2 ^ 53 - 1 / 2" .
    moreover have "of_int R \<le> x / q + 1 / 2" using rne_error [of "x / q"] unfolding R_def by linarith
    ultimately have "(of_int R :: rat) < 2 ^ 53" by linarith
    then have "(of_int R :: rat) < of_int (2 ^ 53)" by simp
    then have "R < 2 ^ 53" by (simp only: of_int_less_iff)
    then have "R \<le> 2 ^ 53 - 1" by simp
    then have "(of_int R :: rat) \<le> of_int (2 ^ 53 - 1)" by (simp only: of_int_le_iff)
    then have "y \<le> q * of_int (2 ^ 53 - 1)" unfolding y using qpos by (intro mult_left_mono) simp_all
    also have "\<dots> < overflow" unfolding q971 overflow_def by simp
    finally show ?thesis .
  qed
  then show ?thesis using y0 by simp
qed

lemma round64_bounded:
  assumes "round64 x = Finite y"
  shows "\<bar>y\<bar> < overflow"
proof -
  consider "x = 0" | "0 < x" | "x < 0" by linarith
  then show ?thesis
  proof cases
    case 1
    then show ?thesis using assms overflow_pos by (simp add: round64_def)
  next
    case 2
    then show ?thesis using round64_bounded_pos [OF 2 assms] by simp
  next
    case 3
    then have "0 < - x" by simp
    moreover have "round64 (- x) = Finite (- y)" unfolding round64_minus using assms by simp
    ultimately show ?thesis using round64_bounded_pos [of "- x" "- y"] by simp
  qed
qed

subsection \<open>Arithmetic of doubles on integers\<close>

lemma js_add_int:
  assumes "\<bar>a + b\<bar> \<le> 2 ^ 53"
  shows "js_add (Finite (of_int a)) (Finite (of_int b)) = Finite (of_int (a + b))"
  using round64_int [OF assms] by simp

lemma js_mul_int:
  assumes "\<bar>a * b\<bar> \<le> 2 ^ 53"
  shows "js_mul (Finite (of_int a)) (Finite (of_int b)) = Finite (of_int (a * b))"
  using round64_int [OF assms] by simp

lemma js_rem_int:
  assumes "0 \<le> a" "0 < b"
  shows "js_rem (Finite (of_int a)) (Finite (of_int b)) = Finite (of_int (a mod b))"
proof -
  have "\<not> (of_int a / of_int b :: rat) < 0" using assms by (simp add: divide_less_0_iff)
  moreover have "\<lfloor>(of_int a / of_int b :: rat)\<rfloor> = a div b" by (rule floor_divide_of_int_eq)
  moreover have "a - b * (a div b) = a mod b" by (simp add: minus_mult_div_eq_mod)
  then have "(of_int a :: rat) - of_int b * of_int (a div b) = of_int (a mod b)"
    by (metis of_int_diff of_int_mult)
  ultimately show ?thesis using assms by simp
qed

lemma floor_div60:
  assumes "0 \<le> n" "n \<le> 2 ^ 53"
  shows "js_floor (js_div (Finite (of_int n)) (Finite 60)) = Finite (of_int (n div 60))"
proof (cases "n = 0")
  case True
  then show ?thesis by (simp add: round64_def)
next
  case False
  define x :: rat where "x = of_int n / 60"
  define a where "a = n div 60"
  define r where "r = n mod 60"
  have n: "n = 60 * a + r" and r: "0 \<le> r" "r \<le> 59" by (simp_all add: a_def r_def)
  have rn: "(of_int n :: rat) = 60 * of_int a + of_int r" unfolding n by simp
  have rr: "(0::rat) \<le> of_int r" "(of_int r :: rat) \<le> 59" using r by simp_all
  have xpos: "0 < x" using False assms(1) by (simp add: x_def)
  have "(of_int n :: rat) \<le> 2 ^ 53" using assms(2) by (metis of_int_le_iff of_int_numeral of_int_power)
  then have x48: "x < 2 powi 48" by (simp add: x_def)
  then have x53: "x < 2 ^ 53" by simp
  have lo: "of_int a \<le> x" unfolding x_def rn using rr by simp
  have hi: "x \<le> of_int (a + 1) - 1 / 60" unfolding x_def rn using rr by simp
  then have hi': "x \<le> of_int (a + 1)" by simp
  from round64_between [OF xpos x53 lo hi']
  obtain y where y: "round64 x = Finite y" "of_int a \<le> y" by blast
  have "x < overflow" using x53 overflow_big by simp
  from round64_abs_error [OF xpos this x48] y(1)
  have "\<bar>y - x\<bar> \<le> 2 powi (48 - 54)" by simp
  then have "\<bar>y - x\<bar> \<le> 1 / 64" by (simp add: power_int_minus)
  then have "y < of_int (a + 1)" using hi by linarith
  then have "y < of_int a + 1" by simp
  then have "\<lfloor>y\<rfloor> = a" using y(2) by (intro floor_unique)
  then show ?thesis using y(1) by (simp add: x_def a_def)
qed

lemma toString_int:
  assumes "\<bar>n\<bar> \<le> 2 ^ 53"
  shows "toString (Finite (of_int n)) = Some (decimalString n)"
proof -
  have "\<bar>of_int n :: rat\<bar> \<le> 2 ^ 53"
    using assms by (metis of_int_abs of_int_le_iff of_int_numeral of_int_power)
  then show ?thesis by simp
qed

subsection \<open>Strings of times\<close>

lemma unat_digitChar: "d < 10 \<Longrightarrow> unat (digitChar d) = 48 + d"
  unfolding digitChar_def by (subst unat_of_nat) simp

lemma uint_digitChar: "d < 10 \<Longrightarrow> uint (digitChar d) = 48 + int d"
  by (simp only: uint_nat unat_digitChar)

lemma isDigit_digitChar: "d < 10 \<Longrightarrow> isDigit (digitChar d)"
  by (simp add: isDigit_def unat_digitChar)

lemma digitChar_not_colon: "d < 10 \<Longrightarrow> digitChar d \<noteq> 0x3A"
proof
  assume d: "d < 10" and e: "digitChar d = 0x3A"
  have "unat (digitChar d) = unat (0x3A :: 16 word)" using e by simp
  then show False using d by (simp add: unat_digitChar)
qed

lemma js_split_hhmm:
  assumes "h < 100" "m < 100"
  shows "js_split 0x3A (hhmm h m) =
           [[digitChar (h div 10), digitChar (h mod 10)], [digitChar (m div 10), digitChar (m mod 10)]]"
proof -
  have "h div 10 < 10" "m div 10 < 10" "h mod 10 < 10" "m mod 10 < 10" using assms by auto
  then show ?thesis by (simp add: hhmm_def digitChar_not_colon)
qed

lemma js_Number_two_digits:
  assumes "a < 10" "b < 10"
  shows "js_Number [digitChar a, digitChar b] = Some (Finite (of_int (int (10 * a + b))))"
  using assms
  by (simp add: js_Number_def readDigits_def isDigit_digitChar decimalValue_def uint_digitChar)

lemma parseTime_hhmm:
  assumes "h < 100" "m < 100"
  shows "parseTime (hhmm h m) = Some (Finite (of_int (int h)), Finite (of_int (int m)))"
proof -
  have "h div 10 < 10" "m div 10 < 10" "h mod 10 < 10" "m mod 10 < 10" using assms by auto
  then show ?thesis
    by (simp add: parseTime_def js_split_hhmm [OF assms] js_Number_two_digits)
qed

lemma padStart_decimalString:
  assumes "0 \<le> x" "x < 100"
  shows "padStart 2 (str ''0'') (decimalString x) = [digitChar (nat x div 10), digitChar (nat x mod 10)]"
proof (cases "x < 10")
  case True
  then have "nat x < 10" using assms by simp
  then have "decimalString x = [digitChar (nat x)]"
    using assms by (simp add: decimalString_def digitsOf.simps)
  moreover have "nat x div 10 = 0" "nat x mod 10 = nat x" using \<open>nat x < 10\<close> by simp_all
  moreover have "str ''0'' = [digitChar 0]" by (simp add: str_def digitChar_def)
  ultimately show ?thesis by (simp add: padStart_def)
next
  case False
  then have n: "\<not> nat x < 10" "nat x div 10 < 10" using assms by auto
  have "digitsOf (nat x) = digitsOf (nat x div 10) @ [digitChar (nat x mod 10)]"
    using n(1) by (subst digitsOf.simps) simp
  also have "digitsOf (nat x div 10) = [digitChar (nat x div 10)]"
    using n(2) by (subst digitsOf.simps) simp
  finally show ?thesis using assms by (simp add: decimalString_def padStart_def)
qed

lemma timeString_hhmm:
  assumes "0 \<le> h" "h < 100" "0 \<le> m" "m < 100"
  shows "timeString (Finite (of_int h)) (Finite (of_int m)) = Some (hhmm (nat h) (nat m))"
proof -
  have "str '':'' = [0x3A]" by (simp add: str_def)
  moreover have "toString (Finite (of_int h)) = Some (decimalString h)"
    "toString (Finite (of_int m)) = Some (decimalString m)"
    using assms by (simp_all add: toString_int)
  ultimately show ?thesis
    using assms by (simp add: timeString_def padStart_decimalString hhmm_def del: toString.simps)
qed

text \<open>The time string of a minute count below \<open>2\<^sup>5\<^sup>3\<close>, as the loop and the end time compute it.\<close>

lemma minutes_total:
  assumes "h < 24" "m < 60" "0 \<le> d" "int h * 60 + int m + d \<le> 2 ^ 53"
  shows "js_add (js_add (js_mul (Finite (of_int (int h))) (Finite 60)) (Finite (of_int (int m))))
           (Finite (of_int d)) = Finite (of_int (int h * 60 + int m + d))"
proof -
  have "js_mul (Finite (of_int (int h))) (Finite (of_int 60)) = Finite (of_int (int h * 60))"
    using assms by (intro js_mul_int) simp
  moreover have "js_add (Finite (of_int (int h * 60))) (Finite (of_int (int m)))
                   = Finite (of_int (int h * 60 + int m))"
    using assms by (intro js_add_int) simp
  moreover have "js_add (Finite (of_int (int h * 60 + int m))) (Finite (of_int d))
                   = Finite (of_int (int h * 60 + int m + d))"
    using assms by (intro js_add_int) simp
  ultimately show ?thesis by simp
qed

lemma hours_of:
  assumes "0 \<le> t" "t \<le> 2 ^ 53"
  shows "js_rem (js_floor (js_div (Finite (of_int t)) (Finite 60))) (Finite 24)
           = Finite (of_int ((t div 60) mod 24))"
proof -
  have "0 \<le> t div 60" using assms by simp
  then have "js_rem (Finite (of_int (t div 60))) (Finite (of_int 24)) = Finite (of_int ((t div 60) mod 24))"
    by (intro js_rem_int) simp_all
  then show ?thesis using floor_div60 [OF assms] by simp
qed

lemma minutes_of:
  assumes "0 \<le> t"
  shows "js_rem (Finite (of_int t)) (Finite 60) = Finite (of_int (t mod 60))"
  using js_rem_int [OF assms, of 60] by simp

subsection \<open>calculateEndTime\<close>

lemma calculateEndTime_exact:
  assumes "h < 24" "m < 60" "0 \<le> d" "int h * 60 + int m + d \<le> 2 ^ 53"
  shows "calculateEndTime (hhmm h m) (Finite (of_int d)) =
           Some (hhmm (nat (((int h * 60 + int m + d) div 60) mod 24))
                      (nat ((int h * 60 + int m + d) mod 60)))"
proof -
  let ?t = "int h * 60 + int m + d"
  have t: "0 \<le> ?t" using assms by simp
  have p: "parseTime (hhmm h m) = Some (Finite (of_int (int h)), Finite (of_int (int m)))"
    using assms by (simp add: parseTime_hhmm)
  have b: "0 \<le> (?t div 60) mod 24" "(?t div 60) mod 24 < 100" "0 \<le> ?t mod 60" "?t mod 60 < 100"
  proof -
    show "0 \<le> (?t div 60) mod 24" "0 \<le> ?t mod 60" by simp_all
    have "(?t div 60) mod 24 < 24" "?t mod 60 < 60" by simp_all
    then show "(?t div 60) mod 24 < 100" "?t mod 60 < 100" by linarith+
  qed
  have "calculateEndTime (hhmm h m) (Finite (of_int d)) =
          timeString (Finite (of_int ((?t div 60) mod 24))) (Finite (of_int (?t mod 60)))"
    unfolding calculateEndTime_def p
    by (simp only: option.case prod.case Let_def minutes_total [OF assms]
        hours_of [OF t assms(4)] minutes_of [OF t])
  then show ?thesis using timeString_hhmm [OF b] by simp
qed

lemma hhmm_str:
  "hhmm 23 30 = str ''23:30''" "hhmm 0 0 = str ''00:00''" "hhmm 0 (Suc 0) = str ''00:01''"
  "hhmm 0 32 = str ''00:32''" "hhmm 0 33 = str ''00:33''" "hhmm 23 0 = str ''23:00''"
  "hhmm (Suc 0) 0 = str ''01:00''"
  by (simp_all add: hhmm_def str_def digitChar_def)

text \<open>
  Claim C3: (as amended) for a start time \<open>hh:mm\<close> with \<open>h < 24\<close>, \<open>m < 60\<close> and an integer duration
  \<open>d \<ge> 0\<close> with \<open>60 * h + m + d \<le> 2\<^sup>5\<^sup>3\<close>, \<open>calculateEndTime\<close> returns the two-digit hour
  \<open>((60 * h + m + d) div 60) mod 24\<close> and the two-digit minute \<open>(60 * h + m + d) mod 60\<close>; 23:30 plus
  30 minutes is 00:00.
\<close>

theorem calculateEndTime_wraps:
  assumes "h < 24" "m < 60" "0 \<le> d" "int h * 60 + int m + d \<le> 2 ^ 53"
  shows "calculateEndTime (hhmm h m) (Finite (of_int d)) =
           Some (hhmm (nat (((int h * 60 + int m + d) div 60) mod 24))
                      (nat ((int h * 60 + int m + d) mod 60)))
         \<and> calculateEndTime (str ''23:30'') (Finite 30) = Some (str ''00:00'')"
proof -
  have "calculateEndTime (hhmm 23 30) (Finite (of_int 30)) = Some (hhmm 0 0)"
    by (subst calculateEndTime_exact) simp_all
  then have "calculateEndTime (str ''23:30'') (Finite 30) = Some (str ''00:00'')"
    by (simp add: hhmm_str)
  then show ?thesis using calculateEndTime_exact [OF assms] by simp
qed

theorem calculateEndTime_wraps_witness:
  "calculateEndTime (str ''23:00'') (Finite 120) = Some (str ''01:00'')"
  using calculateEndTime_wraps [of 23 0 120] by (simp add: hhmm_str)

lemma round64_tie_2_53: "round64 (1 + 2 ^ 53) = Finite (2 ^ 53)"
proof -
  have "round64 (1 + 2 ^ 53) =
          Finite (2 powi (53 - 52) * of_int (rne ((1 + 2 ^ 53) / 2 powi (53 - 52))))"
    using overflow_big by (intro round64_eval) simp_all
  moreover have "rne (9007199254740993 / 2) = 4503599627370496" by (simp add: rne_def Let_def floor_rat_numeral)
  ultimately show ?thesis by simp
qed

text \<open>
  The claim C3 as stated (every non-negative integer duration) fails: the total is a double,
  \<open>1 + 2\<^sup>5\<^sup>3\<close> rounds to \<open>2\<^sup>5\<^sup>3\<close>, and 00:01 plus \<open>2\<^sup>5\<^sup>3\<close> minutes gives 00:32 where the formula of
  the claim gives 00:33.
\<close>

theorem calculateEndTime_rounding_counterexample:
  "calculateEndTime (str ''00:01'') (Finite (2 ^ 53)) = Some (str ''00:32'')
   \<and> hhmm (nat (((int 0 * 60 + int 1 + 2 ^ 53) div 60) mod 24)) (nat ((int 0 * 60 + int 1 + 2 ^ 53) mod 60))
       = str ''00:33''"
proof -
  define T :: int where "T = 2 ^ 53"
  have T: "0 \<le> T" "T \<le> 2 ^ 53" by (simp_all add: T_def)
  have p: "parseTime (hhmm 0 (Suc 0)) = Some (Finite 0, Finite 1)"
    using parseTime_hhmm [of 0 1] by simp
  have one: "js_add (js_mul (Finite 0) (Finite 60)) (Finite 1) = Finite 1"
    using round64_int [of 0] round64_int [of 1] by simp
  have t: "js_add (js_add (js_mul (Finite 0) (Finite 60)) (Finite 1)) (Finite (of_int T))
             = Finite (of_int T)"
    unfolding one using round64_tie_2_53 by (simp add: T_def)
  have "calculateEndTime (hhmm 0 (Suc 0)) (Finite (of_int T)) =
          timeString (Finite (of_int ((T div 60) mod 24))) (Finite (of_int (T mod 60)))"
    unfolding calculateEndTime_def p
    by (simp only: option.case prod.case Let_def t hours_of [OF T] minutes_of [OF T(1)])
  also have "\<dots> = Some (hhmm (nat ((T div 60) mod 24)) (nat (T mod 60)))"
    by (rule timeString_hhmm) (simp_all add: T_def)
  finally have "calculateEndTime (str ''00:01'') (Finite (2 ^ 53)) = Some (str ''00:32'')"
    by (simp add: hhmm_str T_def)
  then show ?thesis by (simp add: hhmm_str)
qed

subsection \<open>generateTimeSlots\<close>

lemma slotCount_step:
  assumes "0 < (i::int)" "cur < cls"
  shows "nat (- ((cur - cls) div i)) = Suc (nat (- ((cur + i - cls) div i)))"
proof -
  have "(cur + i - cls) div i = (cur - cls) div i + 1"
    using assms(1) by (metis add.commute add_diff_eq div_add_self1 less_irrefl)
  moreover have "(cur + i - cls) div i \<le> 0"
  proof -
    have "cur + i - cls < i" using assms by simp
    then show ?thesis using assms(1)
      by (smt (verit) div_pos_neg_trivial zdiv_mono1 div_by_1 int_div_less_self pos_imp_zdiv_neg_iff zdiv_eq_0_iff)
  qed
  ultimately show ?thesis by simp
qed

lemma slotCount_done:
  assumes "0 < (i::int)" "\<not> cur < cls"
  shows "nat (- ((cur - cls) div i)) = 0"
proof -
  have "0 \<le> (cur - cls) div i" using assms by (simp add: pos_imp_zdiv_nonneg_iff)
  then show ?thesis by simp
qed

lemma slotCount_iff:
  assumes "0 < (i::int)"
  shows "k < nat (- ((cur - cls) div i)) \<longleftrightarrow> cur + int k * i < cls"
  by (smt (verit, best) assms div_mult_self3 pos_imp_zdiv_neg_iff
    zless_nat_eq_int_zless)

lemma clockString_timeString:
  assumes "0 \<le> t" "t < 1440"
  shows "timeString (js_floor (js_div (Finite (of_int t)) (Finite 60))) (js_rem (Finite (of_int t)) (Finite 60))
           = Some (clockString t)"
proof -
  have "t div 60 < 24" using assms by simp
  then have h: "0 \<le> t div 60" "t div 60 < 100" using assms by simp_all
  have "t mod 60 < 60" by simp
  then have m: "0 \<le> t mod 60" "t mod 60 < 100" by simp_all
  have "t \<le> 2 ^ 53" using assms by simp
  from floor_div60 [OF assms(1) this] minutes_of [OF assms(1)] timeString_hhmm [OF h m]
  show ?thesis by (simp only: clockString_def)
qed

lemma parseTime_clockString:
  assumes "0 \<le> t" "t < 1440"
  shows "parseTime (clockString t) = Some (Finite (of_int (t div 60)), Finite (of_int (t mod 60)))"
proof -
  have "t div 60 < 24" using assms by simp
  then have "nat (t div 60) < 100" by simp
  moreover have "t mod 60 < 100" by (smt (verit) pos_mod_bound)
  then have "nat (t mod 60) < 100" by simp
  ultimately show ?thesis
    using assms by (simp add: clockString_def parseTime_hhmm)
qed

lemma slotLoop_done: "\<not> js_lt cur cls \<Longrightarrow> slotLoop cur cls iv acc = Some acc"
  by (subst slotLoop.simps) simp

lemma slotLoop_next:
  "js_lt cur cls \<Longrightarrow>
     slotLoop cur cls iv acc =
       slotLoop (js_add cur iv) cls iv
         (acc @ [timeString (js_floor (js_div cur (Finite 60))) (js_rem cur (Finite 60))])"
  by (subst slotLoop.simps) simp

lemma past_exact_range:
  assumes "2 ^ 53 < cur + i" "cls \<le> 1440"
  shows "\<not> js_lt (js_add (Finite (of_int cur)) (Finite (of_int i))) (Finite (of_int cls))"
proof -
  have "(of_int (2 ^ 53) :: rat) \<le> of_int (cur + i)" using assms(1) by (simp only: of_int_le_iff)
  then have "2 powi 53 \<le> (of_int (cur + i) :: rat)" by simp
  from round64_ge_pow [OF this]
  consider "round64 (of_int (cur + i)) = PosInf"
    | y where "round64 (of_int (cur + i)) = Finite y" "2 powi 53 \<le> y" by auto
  then show ?thesis
  proof cases
    case 1
    then show ?thesis by simp
  next
    case 2
    have "(of_int cls :: rat) \<le> 1440" using assms(2) by (metis of_int_le_iff of_int_numeral)
    then have "\<not> y < of_int cls" using 2(2) by simp
    then show ?thesis using 2(1) by simp
  qed
qed

lemma slotLoop_positive:
  assumes "0 < i" "cls \<le> 1440"
  shows "0 \<le> cur \<Longrightarrow>
         slotLoop (Finite (of_int cur)) (Finite (of_int cls)) (Finite (of_int i)) acc =
           Some (acc @ map (\<lambda>k. Some (clockString (cur + int k * i))) [0..<nat (- ((cur - cls) div i))])"
proof (induction "nat (cls - cur)" arbitrary: cur acc rule: less_induct)
  case less
  show ?case
  proof (cases "cur < cls")
    case False
    then have "\<not> js_lt (Finite (of_int cur)) (Finite (of_int cls))" by simp
    then show ?thesis using slotCount_done [OF assms(1) False] by (simp add: slotLoop_done)
  next
    case True
    have lt: "js_lt (Finite (of_int cur)) (Finite (of_int cls))" using True by simp
    have s: "timeString (js_floor (js_div (Finite (of_int cur)) (Finite 60))) (js_rem (Finite (of_int cur)) (Finite 60))
               = Some (clockString cur)"
      using less.prems True assms(2) by (intro clockString_timeString) simp_all
    have up: "[0..<Suc n] = 0 # map Suc [0..<n]" for n
      by (simp add: upt_conv_Cons map_Suc_upt del: upt_Suc)
    show ?thesis
    proof (cases "cur + i \<le> 2 ^ 53")
      case True
      then have a: "js_add (Finite (of_int cur)) (Finite (of_int i)) = Finite (of_int (cur + i))"
        using less.prems assms(1) by (intro js_add_int) simp
      have "nat (cls - (cur + i)) < nat (cls - cur)" using \<open>cur < cls\<close> assms by simp
      moreover have "0 \<le> cur + i" using less.prems assms(1) by simp
      ultimately have IH: "slotLoop (Finite (of_int (cur + i))) (Finite (of_int cls)) (Finite (of_int i)) acc' =
           Some (acc' @ map (\<lambda>k. Some (clockString (cur + i + int k * i)))
                          [0..<nat (- ((cur + i - cls) div i))])" for acc'
        by (rule less.hyps)
      show ?thesis
        unfolding slotLoop_next [OF lt] s a IH slotCount_step [OF assms(1) \<open>cur < cls\<close>] up
        by (simp add: o_def algebra_simps)
    next
      case False
      then have big: "2 ^ 53 < cur + i" by simp
      have "\<not> cur + i < cls" using big assms(2) by simp
      then have n: "nat (- ((cur - cls) div i)) = Suc 0"
        using slotCount_step [OF assms(1) \<open>cur < cls\<close>] slotCount_done [OF assms(1), of "cur + i" cls]
        by simp
      show ?thesis
        unfolding slotLoop_next [OF lt] s n
        using past_exact_range [OF big assms(2)] by (simp add: slotLoop_done)
    qed
  qed
qed

lemma minutes_start:
  assumes "h < 24" "m < 60"
  shows "js_add (js_mul (Finite (of_int (int h))) (Finite 60)) (Finite (of_int (int m)))
           = Finite (of_int (int h * 60 + int m))"
proof -
  have "js_mul (Finite (of_int (int h))) (Finite (of_int 60)) = Finite (of_int (int h * 60))"
    using assms by (intro js_mul_int) simp
  moreover have "js_add (Finite (of_int (int h * 60))) (Finite (of_int (int m)))
                   = Finite (of_int (int h * 60 + int m))"
    using assms by (intro js_add_int) simp
  ultimately show ?thesis by simp
qed

lemma generateTimeSlots_loop:
  assumes "h < 24" "m < 60" "h' < 24" "m' < 60"
  shows "generateTimeSlots (hhmm h m) (hhmm h' m') (Some iv) =
           (case slotLoop (Finite (of_int (int h * 60 + int m))) (Finite (of_int (int h' * 60 + int m'))) iv []
              of None \<Rightarrow> NoReturn | Some slots \<Rightarrow> Slots slots)"
proof -
  have p: "parseTime (hhmm h m) = Some (Finite (of_int (int h)), Finite (of_int (int m)))"
    "parseTime (hhmm h' m') = Some (Finite (of_int (int h')), Finite (of_int (int m')))"
    using assms by (simp_all add: parseTime_hhmm)
  show ?thesis
    unfolding generateTimeSlots_def p
    by (simp only: option.case prod.case Let_def minutes_start [OF assms(1,2)] minutes_start [OF assms(3,4)])
qed

lemma generateTimeSlots_positive:
  assumes "h < 24" "m < 60" "h' < 24" "m' < 60" "0 < i"
  shows "generateTimeSlots (hhmm h m) (hhmm h' m') (Some (Finite (of_int i))) =
           Slots (map (\<lambda>k. Some (clockString (int h * 60 + int m + int k * i)))
                      [0..<nat (- ((int h * 60 + int m - (int h' * 60 + int m')) div i))])"
proof -
  have "int h' * 60 + int m' \<le> 1440" "0 \<le> int h * 60 + int m" using assms by simp_all
  from slotLoop_positive [OF assms(5) this, of "[]"]
  show ?thesis unfolding generateTimeSlots_loop [OF assms(1-4)] by simp
qed

text \<open>
  Claim C1: (as amended) for an opening time \<open>hh:mm\<close> and a closing time \<open>hh':mm'\<close> of the
  same day (hours below 24, minutes below 60, closing not before opening) and an interval that
  is a positive integer \<open>i\<close>, \<open>generateTimeSlots\<close> returns the strings \<open>clockString (open + k * i)\<close>
  for \<open>k = 0, 1, \<dots>, n - 1\<close> where \<open>k < n\<close> holds exactly when \<open>open + k * i\<close> is strictly less than
  the closing minute: the times ascend, the first one is the opening time, the closing time is
  not among them, and the list is empty when opening and closing time are equal.
\<close>

theorem generateTimeSlots_sequence:
  assumes "h < 24" "m < 60" "h' < 24" "m' < 60"
    and "int h * 60 + int m \<le> int h' * 60 + int m'" and "0 < i"
  shows "\<exists>n. generateTimeSlots (hhmm h m) (hhmm h' m') (Some (Finite (of_int i))) =
               Slots (map (\<lambda>k. Some (clockString (int h * 60 + int m + int k * i))) [0..<n])
             \<and> (\<forall>k. k < n \<longleftrightarrow> int h * 60 + int m + int k * i < int h' * 60 + int m')
             \<and> sorted_wrt (<) (map (\<lambda>k. int h * 60 + int m + int k * i) [0..<n])
             \<and> (0 < n \<longrightarrow> clockString (int h * 60 + int m + int 0 * i) = hhmm h m)
             \<and> Some (hhmm h' m') \<notin> set (map (\<lambda>k. Some (clockString (int h * 60 + int m + int k * i))) [0..<n])
             \<and> (int h * 60 + int m = int h' * 60 + int m' \<longrightarrow> n = 0)"
proof -
  define opn cls where "opn = int h * 60 + int m" and "cls = int h' * 60 + int m'"
  define n where "n = nat (- ((opn - cls) div i))"
  have iff: "k < n \<longleftrightarrow> opn + int k * i < cls" for k
    unfolding n_def by (rule slotCount_iff [OF assms(6)])
  then have all: "\<forall>k. k < n \<longleftrightarrow> opn + int k * i < cls" by blast
  have gen: "generateTimeSlots (hhmm h m) (hhmm h' m') (Some (Finite (of_int i))) =
               Slots (map (\<lambda>k. Some (clockString (opn + int k * i))) [0..<n])"
    unfolding opn_def cls_def n_def using assms by (intro generateTimeSlots_positive)
  have asc: "sorted_wrt (<) (map (\<lambda>k. opn + int k * i) [0..<n])"
    using assms(6) by (simp add: sorted_wrt_iff_nth_less)
  have start: "clockString (opn + int 0 * i) = hhmm h m"
    using assms(1,2) by (simp add: opn_def clockString_def)
  have bounds: "0 \<le> opn" "cls < 1440" using assms by (simp_all add: opn_def cls_def)
  have noclose: "clockString (opn + int k * i) \<noteq> hhmm h' m'" if "k < n" for k
  proof
    assume e: "clockString (opn + int k * i) = hhmm h' m'"
    let ?t = "opn + int k * i"
    have lt: "?t < cls" using that iff by simp
    have nonneg: "0 \<le> ?t" using bounds(1) assms(6) by simp
    have "parseTime (clockString ?t) = Some (Finite (of_int (?t div 60)), Finite (of_int (?t mod 60)))"
      using nonneg lt bounds(2) by (intro parseTime_clockString) simp_all
    moreover have "parseTime (hhmm h' m') = Some (Finite (of_int (int h')), Finite (of_int (int m')))"
      using assms by (simp add: parseTime_hhmm)
    ultimately have "(of_int (?t div 60) :: rat) = of_int (int h')" "(of_int (?t mod 60) :: rat) = of_int (int m')"
      using e by simp_all
    then have "?t div 60 = int h'" "?t mod 60 = int m'" by (simp_all only: of_int_eq_iff)
    then have "?t = cls" unfolding cls_def by (metis mult.commute mult_div_mod_eq)
    then show False using lt by simp
  qed
  have nc: "Some (hhmm h' m') \<notin> set (map (\<lambda>k. Some (clockString (opn + int k * i))) [0..<n])"
  proof
    assume "Some (hhmm h' m') \<in> set (map (\<lambda>k. Some (clockString (opn + int k * i))) [0..<n])"
    then obtain k where "k < n" "hhmm h' m' = clockString (opn + int k * i)" by auto
    then show False using noclose [of k] by simp
  qed
  have empty: "opn = cls \<longrightarrow> n = 0" by (simp add: n_def)
  have "generateTimeSlots (hhmm h m) (hhmm h' m') (Some (Finite (of_int i))) =
               Slots (map (\<lambda>k. Some (clockString (opn + int k * i))) [0..<n])
             \<and> (\<forall>k. k < n \<longleftrightarrow> opn + int k * i < cls)
             \<and> sorted_wrt (<) (map (\<lambda>k. opn + int k * i) [0..<n])
             \<and> (0 < n \<longrightarrow> clockString (opn + int 0 * i) = hhmm h m)
             \<and> Some (hhmm h' m') \<notin> set (map (\<lambda>k. Some (clockString (opn + int k * i))) [0..<n])
             \<and> (opn = cls \<longrightarrow> n = 0)"
    using gen all asc start nc empty by blast
  then show ?thesis unfolding opn_def cls_def by (rule exI [of _ n])
qed

lemma clock_strings:
  "clockString 540 = str ''09:00''" "clockString 570 = str ''09:30''"
  "clockString 600 = str ''10:00''" "clockString 630 = str ''10:30''"
  "hhmm 9 0 = str ''09:00''" "hhmm 11 0 = str ''11:00''" "hhmm 19 0 = str ''19:00''"
  "hhmm 0 11 = str ''00:11''" "hhmm 10 0 = str ''10:00''" "hhmm 10 30 = str ''10:30''"
  by (simp_all add: clockString_def hhmm_def str_def digitChar_def)

theorem generateTimeSlots_sequence_witness:
  "generateTimeSlots (str ''09:00'') (str ''11:00'') (Some (Finite 30)) =
     Slots [Some (str ''09:00''), Some (str ''09:30''), Some (str ''10:00''), Some (str ''10:30'')]
   \<and> generateTimeSlots (str ''09:00'') (str ''11:00'') None =
     Slots [Some (str ''09:00''), Some (str ''09:30''), Some (str ''10:00''), Some (str ''10:30'')]
   \<and> generateTimeSlots (str ''09:00'') (str ''09:00'') (Some (Finite 30)) = Slots []"
proof -
  have a: "(9::nat) < 24" "(0::nat) < 60" "(11::nat) < 24" "int 9 * 60 + int 0 \<le> int 11 * 60 + int 0"
    "int 9 * 60 + int 0 \<le> int 9 * 60 + int 0" "(0::int) < 30" by simp_all
  from generateTimeSlots_sequence [OF a(1,2,3,2,4,6)]
  obtain n where n: "generateTimeSlots (hhmm 9 0) (hhmm 11 0) (Some (Finite (of_int 30))) =
               Slots (map (\<lambda>k. Some (clockString (int 9 * 60 + int 0 + int k * 30))) [0..<n])"
    "\<forall>k. k < n \<longleftrightarrow> int 9 * 60 + int 0 + int k * 30 < int 11 * 60 + int 0"
    by blast
  have "3 < n" "\<not> 4 < n" using n(2) by simp_all
  then have "n = 4" by simp
  then have "[0..<n] = [0, 1, 2, 3]" by (simp add: upt_rec)
  then have 1: "generateTimeSlots (str ''09:00'') (str ''11:00'') (Some (Finite 30)) =
     Slots [Some (str ''09:00''), Some (str ''09:30''), Some (str ''10:00''), Some (str ''10:30'')]"
    using n(1) by (simp add: clock_strings)
  from generateTimeSlots_sequence [OF a(1,2,1,2,5,6)]
  have 2: "generateTimeSlots (str ''09:00'') (str ''09:00'') (Some (Finite 30)) = Slots []"
    by (auto simp: clock_strings)
  have 3: "generateTimeSlots a b None = generateTimeSlots a b (Some (Finite 30))" for a b
    by (simp add: generateTimeSlots_def)
  from 1 2 show ?thesis unfolding 3 by simp
qed

text \<open>An interval too small to move the counter: \<open>540 + 2\<^sup>-\<^sup>4\<^sup>7\<close> rounds to 540.\<close>

lemma round64_value:
  assumes "0 < x" "x < 2 ^ 1000" "2 powi e \<le> x" "x < 2 powi (e + 1)" "- 1022 \<le> e"
    and "rne (x / 2 powi (e - 52)) = f"
  shows "round64 x = Finite (2 powi (e - 52) * of_int f)"
proof -
  have "x < overflow" using assms(2) overflow_big by simp
  then show ?thesis using assms round64_eval [of x e] by simp
qed

lemma slotLoop_stuck:
  assumes "slotLoop cur cls iv acc = Some r"
  shows "\<not> (js_lt cur cls \<and> js_add cur iv = cur)"
proof (rule slotLoop.raw_induct
    [where P = "\<lambda>cur cls iv acc r. \<not> (js_lt cur cls \<and> js_add cur iv = cur)", OF _ assms])
  fix f :: "number \<Rightarrow> number \<Rightarrow> number \<Rightarrow> jsstring option list \<Rightarrow> jsstring option list option"
  fix cur cls iv :: number and acc r :: "jsstring option list"
  assume IH: "\<And>a b c d y. f a b c d = Some y \<Longrightarrow> \<not> (js_lt a b \<and> js_add a c = a)"
    and body: "(if js_lt cur cls
                then f (js_add cur iv) cls iv
                       (acc @ [timeString (js_floor (js_div cur (Finite 60))) (js_rem cur (Finite 60))])
                else Some acc) = Some r"
  show "\<not> (js_lt cur cls \<and> js_add cur iv = cur)"
  proof
    assume a: "js_lt cur cls \<and> js_add cur iv = cur"
    with body have "f cur cls iv
        (acc @ [timeString (js_floor (js_div cur (Finite 60))) (js_rem cur (Finite 60))]) = Some r"
      by simp
    from IH [OF this] a show False by simp
  qed
qed

text \<open>
  The claim C1 as stated (every positive interval) fails: the interval is a double, and the
  sum of 540 and \<open>2\<^sup>-\<^sup>4\<^sup>7\<close> rounds to 540, so that with this interval the counter stays at 09:00
  and the call does not return.
\<close>

theorem generateTimeSlots_small_interval_counterexample:
  "generateTimeSlots (str ''09:00'') (str ''11:00'') (Some (Finite (1 / 2 ^ 47))) = NoReturn"
proof -
  have "round64 (540 + 1 / 2 ^ 47) = Finite (2 powi (9 - 52) * of_int 4749890231992320)"
    by (rule round64_value) (simp_all add: power_int_minus rne_def Let_def floor_rat_numeral)
  then have "js_add (Finite 540) (Finite (1 / 2 ^ 47)) = Finite 540" by (simp add: power_int_minus)
  then have "slotLoop (Finite 540) (Finite 660) (Finite (1 / 2 ^ 47)) [] = None"
    using slotLoop_stuck [of "Finite 540" "Finite 660" "Finite (1 / 2 ^ 47)" "[]"]
    by (cases "slotLoop (Finite 540) (Finite 660) (Finite (1 / 2 ^ 47)) []") simp_all
  then have "generateTimeSlots (hhmm 9 0) (hhmm 11 0) (Some (Finite (1 / 2 ^ 47))) = NoReturn"
    by (subst generateTimeSlots_loop) simp_all
  then show ?thesis by (simp add: clock_strings)
qed

text \<open>Termination.\<close>

lemma slotLoop_diverges:
  assumes "slotLoop cur cls iv acc = Some r"
  shows "\<not> (\<exists>c x. cls = Finite (of_int c) \<and> iv = Finite x \<and> x \<le> 0 \<and> 0 < c \<and> c \<le> 2 ^ 53
               \<and> (cur = NegInf \<or> (\<exists>y. cur = Finite y \<and> y \<le> of_int (c - 1))))"
proof (rule slotLoop.raw_induct
    [where P = "\<lambda>cur cls iv acc r.
       \<not> (\<exists>c x. cls = Finite (of_int c) \<and> iv = Finite x \<and> x \<le> 0 \<and> 0 < c \<and> c \<le> 2 ^ 53
               \<and> (cur = NegInf \<or> (\<exists>y. cur = Finite y \<and> y \<le> of_int (c - 1))))", OF _ assms])
  fix f :: "number \<Rightarrow> number \<Rightarrow> number \<Rightarrow> jsstring option list \<Rightarrow> jsstring option list option"
  fix cur cls iv :: number and acc r :: "jsstring option list"
  assume IH: "\<And>a b c d y. f a b c d = Some y \<Longrightarrow>
       \<not> (\<exists>k x. b = Finite (of_int k) \<and> c = Finite x \<and> x \<le> 0 \<and> 0 < k \<and> k \<le> 2 ^ 53
               \<and> (a = NegInf \<or> (\<exists>y. a = Finite y \<and> y \<le> of_int (k - 1))))"
    and body: "(if js_lt cur cls
                then f (js_add cur iv) cls iv
                       (acc @ [timeString (js_floor (js_div cur (Finite 60))) (js_rem cur (Finite 60))])
                else Some acc) = Some r"
  show "\<not> (\<exists>c x. cls = Finite (of_int c) \<and> iv = Finite x \<and> x \<le> 0 \<and> 0 < c \<and> c \<le> 2 ^ 53
               \<and> (cur = NegInf \<or> (\<exists>y. cur = Finite y \<and> y \<le> of_int (c - 1))))"
  proof
    assume "\<exists>c x. cls = Finite (of_int c) \<and> iv = Finite x \<and> x \<le> 0 \<and> 0 < c \<and> c \<le> 2 ^ 53
               \<and> (cur = NegInf \<or> (\<exists>y. cur = Finite y \<and> y \<le> of_int (c - 1)))"
    then obtain c x where c: "cls = Finite (of_int c)" "iv = Finite x" "x \<le> 0" "0 < c" "c \<le> 2 ^ 53"
      and cur: "cur = NegInf \<or> (\<exists>y. cur = Finite y \<and> y \<le> of_int (c - 1))" by blast
    have c1: "(of_int (c - 1) :: rat) < of_int c" by simp
    have lt: "js_lt cur cls" using cur c(1) c1 by auto
    have nxt: "js_add cur iv = NegInf \<or> (\<exists>y. js_add cur iv = Finite y \<and> y \<le> of_int (c - 1))"
    proof -
      have fin: "round64 z = NegInf \<or> (\<exists>y. round64 z = Finite y \<and> y \<le> of_int (c - 1))"
        if z: "z \<le> of_int (c - 1)" for z
      proof (cases "z \<le> 0")
        case True
        have "(0::rat) \<le> of_int (c - 1)" using c(4) by simp
        then show ?thesis using round64_nonpos [OF True] by auto
      next
        case False
        then have zpos: "0 < z" by simp
        have "c - 1 < 2 ^ 53" using c(5) by simp
        then have "(of_int (c - 1) :: rat) < of_int (2 ^ 53)" by (simp only: of_int_less_iff)
        then have "z < 2 ^ 53" using z by simp
        moreover have "of_int 0 \<le> z" using zpos by simp
        ultimately show ?thesis using round64_between [OF zpos _ _ z, of 0] by blast
      qed
      then have r: "round64 (y + x) = NegInf \<or> (\<exists>y'. round64 (y + x) = Finite y' \<and> y' \<le> of_int (c - 1))"
        if "y \<le> of_int (c - 1)" for y
        using that c(3) by (intro fin) linarith
      from cur show ?thesis
      proof
        assume "cur = NegInf"
        then show ?thesis using c(2) by simp
      next
        assume "\<exists>y. cur = Finite y \<and> y \<le> of_int (c - 1)"
        then obtain y where "cur = Finite y" "y \<le> of_int (c - 1)" by blast
        then show ?thesis using r [of y] c(2) by simp
      qed
    qed
    from body lt have "f (js_add cur iv) cls iv
        (acc @ [timeString (js_floor (js_div cur (Finite 60))) (js_rem cur (Finite 60))]) = Some r"
      by simp
    from IH [OF this] c nxt show False by blast
  qed
qed

lemma slotLoop_nonpositive:
  assumes "x \<le> 0" "0 \<le> cur" "cur < cls" "cls \<le> 2 ^ 53"
  shows "slotLoop (Finite (of_int cur)) (Finite (of_int cls)) (Finite x) acc = None"
proof (cases "slotLoop (Finite (of_int cur)) (Finite (of_int cls)) (Finite x) acc")
  case None
  then show ?thesis .
next
  case (Some r)
  have "cur \<le> cls - 1" using assms(3) by simp
  then have "(of_int cur :: rat) \<le> of_int (cls - 1)" by (simp only: of_int_le_iff)
  moreover have "0 < cls" using assms by simp
  ultimately show ?thesis using slotLoop_diverges [OF Some] assms by blast
qed

text \<open>
  Claim C10: (as amended) for opening and closing times of a day: with an interval that is a
  positive integer the loop of \<open>generateTimeSlots\<close> returns, and when the closing time is after the
  opening time the list has \<open>\<lceil>(close - open) / interval\<rceil>\<close> entries; with a finite interval \<open>\<le> 0\<close>
  and the opening time before the closing time the loop does not return.
\<close>

theorem generateTimeSlots_terminates:
  assumes "h < 24" "m < 60" "h' < 24" "m' < 60"
  shows "(0 < i \<longrightarrow>
            (\<exists>slots. generateTimeSlots (hhmm h m) (hhmm h' m') (Some (Finite (of_int i))) = Slots slots
               \<and> (int h * 60 + int m < int h' * 60 + int m' \<longrightarrow>
                    int (length slots) =
                      \<lceil>(of_int (int h' * 60 + int m' - (int h * 60 + int m)) :: rat) / of_int i\<rceil>)))
       \<and> (x \<le> 0 \<and> int h * 60 + int m < int h' * 60 + int m' \<longrightarrow>
            generateTimeSlots (hhmm h m) (hhmm h' m') (Some (Finite x)) = NoReturn)"
proof (intro conjI impI)
  define opn cls where "opn = int h * 60 + int m" and "cls = int h' * 60 + int m'"
  assume i: "0 < i"
  define n where "n = nat (- ((opn - cls) div i))"
  have gen: "generateTimeSlots (hhmm h m) (hhmm h' m') (Some (Finite (of_int i))) =
               Slots (map (\<lambda>k. Some (clockString (opn + int k * i))) [0..<n])"
    unfolding opn_def cls_def n_def using assms i by (intro generateTimeSlots_positive)
  have "int n = \<lceil>(of_int (cls - opn) :: rat) / of_int i\<rceil>" if "opn < cls"
  proof -
    have "(opn - cls) div i \<le> 0" using that i
      by (smt (verit) pos_imp_zdiv_neg_iff)
    then have "int n = - ((opn - cls) div i)" by (simp add: n_def)
    also have "\<dots> = - (- (cls - opn) div i)" by simp
    also have "\<dots> = \<lceil>(of_int (cls - opn) :: rat) / of_int i\<rceil>"
      by (simp only: ceiling_divide_eq_div)
    finally show ?thesis .
  qed
  then show "\<exists>slots. generateTimeSlots (hhmm h m) (hhmm h' m') (Some (Finite (of_int i))) = Slots slots
               \<and> (int h * 60 + int m < int h' * 60 + int m' \<longrightarrow>
                    int (length slots) =
                      \<lceil>(of_int (int h' * 60 + int m' - (int h * 60 + int m)) :: rat) / of_int i\<rceil>)"
    using gen unfolding opn_def cls_def by simp
next
  assume a: "x \<le> 0 \<and> int h * 60 + int m < int h' * 60 + int m'"
  have "int h' * 60 + int m' \<le> 2 ^ 53" using assms by simp
  then have "slotLoop (Finite (of_int (int h * 60 + int m))) (Finite (of_int (int h' * 60 + int m'))) (Finite x) [] = None"
    using a by (intro slotLoop_nonpositive) simp_all
  then show "generateTimeSlots (hhmm h m) (hhmm h' m') (Some (Finite x)) = NoReturn"
    unfolding generateTimeSlots_loop [OF assms] by simp
qed

theorem generateTimeSlots_terminates_witness:
  "(\<exists>slots. generateTimeSlots (str ''09:00'') (str ''19:00'') (Some (Finite 60)) = Slots slots
       \<and> int (length slots) = 10)
   \<and> generateTimeSlots (str ''09:00'') (str ''19:00'') (Some (Finite 0)) = NoReturn
   \<and> generateTimeSlots (str ''09:00'') (str ''19:00'') (Some (Finite (- 30))) = NoReturn"
  using generateTimeSlots_terminates [of 9 0 19 0 60 0]
    generateTimeSlots_terminates [of 9 0 19 0 60 "- 30"]
  by (simp add: clock_strings)

text \<open>Steps of 1.1 minutes: ten additions of the double nearest to 1.1 stay below 11.\<close>

lemma tenth_step_1:
  "js_add (Finite (2476979795053773 / 2251799813685248)) (Finite (2476979795053773 / 2251799813685248)) = Finite (2476979795053773 / 1125899906842624)"
proof -
  have "round64 (2476979795053773 / 2251799813685248 + 2476979795053773 / 2251799813685248) = Finite (2 powi (1 - 52) * of_int 4953959590107546)"
    by (rule round64_value) (simp_all add: power_int_minus rne_def Let_def floor_rat_numeral)
  then show ?thesis by (simp add: power_int_minus)
qed

lemma tenth_step_2:
  "js_add (Finite (2476979795053773 / 1125899906842624)) (Finite (2476979795053773 / 2251799813685248)) = Finite (7430939385161319 / 2251799813685248)"
proof -
  have "round64 (2476979795053773 / 1125899906842624 + 2476979795053773 / 2251799813685248) = Finite (2 powi (1 - 52) * of_int 7430939385161319)"
    by (rule round64_value) (simp_all add: power_int_minus rne_def Let_def floor_rat_numeral)
  then show ?thesis by (simp add: power_int_minus)
qed

lemma tenth_step_3:
  "js_add (Finite (7430939385161319 / 2251799813685248)) (Finite (2476979795053773 / 2251799813685248)) = Finite (2476979795053773 / 562949953421312)"
proof -
  have "round64 (7430939385161319 / 2251799813685248 + 2476979795053773 / 2251799813685248) = Finite (2 powi (2 - 52) * of_int 4953959590107546)"
    by (rule round64_value) (simp_all add: power_int_minus rne_def Let_def floor_rat_numeral)
  then show ?thesis by (simp add: power_int_minus)
qed

lemma tenth_step_4:
  "js_add (Finite (2476979795053773 / 562949953421312)) (Finite (2476979795053773 / 2251799813685248)) = Finite (11 / 2)"
proof -
  have "round64 (2476979795053773 / 562949953421312 + 2476979795053773 / 2251799813685248) = Finite (2 powi (2 - 52) * of_int 6192449487634432)"
    by (rule round64_value) (simp_all add: power_int_minus rne_def Let_def floor_rat_numeral)
  then show ?thesis by (simp add: power_int_minus)
qed

lemma tenth_step_5:
  "js_add (Finite (11 / 2)) (Finite (2476979795053773 / 2251799813685248)) = Finite (3715469692580659 / 562949953421312)"
proof -
  have "round64 (11 / 2 + 2476979795053773 / 2251799813685248) = Finite (2 powi (2 - 52) * of_int 7430939385161318)"
    by (rule round64_value) (simp_all add: power_int_minus rne_def Let_def floor_rat_numeral)
  then show ?thesis by (simp add: power_int_minus)
qed

lemma tenth_step_6:
  "js_add (Finite (3715469692580659 / 562949953421312)) (Finite (2476979795053773 / 2251799813685248)) = Finite (2167357320672051 / 281474976710656)"
proof -
  have "round64 (3715469692580659 / 562949953421312 + 2476979795053773 / 2251799813685248) = Finite (2 powi (2 - 52) * of_int 8669429282688204)"
    by (rule round64_value) (simp_all add: power_int_minus rne_def Let_def floor_rat_numeral)
  then show ?thesis by (simp add: power_int_minus)
qed

lemma tenth_step_7:
  "js_add (Finite (2167357320672051 / 281474976710656)) (Finite (2476979795053773 / 2251799813685248)) = Finite (4953959590107545 / 562949953421312)"
proof -
  have "round64 (2167357320672051 / 281474976710656 + 2476979795053773 / 2251799813685248) = Finite (2 powi (3 - 52) * of_int 4953959590107545)"
    by (rule round64_value) (simp_all add: power_int_minus rne_def Let_def floor_rat_numeral)
  then show ?thesis by (simp add: power_int_minus)
qed

lemma tenth_step_8:
  "js_add (Finite (4953959590107545 / 562949953421312)) (Finite (2476979795053773 / 2251799813685248)) = Finite (1393301134717747 / 140737488355328)"
proof -
  have "round64 (4953959590107545 / 562949953421312 + 2476979795053773 / 2251799813685248) = Finite (2 powi (3 - 52) * of_int 5573204538870988)"
    by (rule round64_value) (simp_all add: power_int_minus rne_def Let_def floor_rat_numeral)
  then show ?thesis by (simp add: power_int_minus)
qed

lemma tenth_step_9:
  "js_add (Finite (1393301134717747 / 140737488355328)) (Finite (2476979795053773 / 2251799813685248)) = Finite (6192449487634431 / 562949953421312)"
proof -
  have "round64 (1393301134717747 / 140737488355328 + 2476979795053773 / 2251799813685248) = Finite (2 powi (3 - 52) * of_int 6192449487634431)"
    by (rule round64_value) (simp_all add: power_int_minus rne_def Let_def floor_rat_numeral)
  then show ?thesis by (simp add: power_int_minus)
qed

lemma tenth_step_10:
  "js_add (Finite (6192449487634431 / 562949953421312)) (Finite (2476979795053773 / 2251799813685248)) = Finite (3405847218198937 / 281474976710656)"
proof -
  have "round64 (6192449487634431 / 562949953421312 + 2476979795053773 / 2251799813685248) = Finite (2 powi (3 - 52) * of_int 6811694436397874)"
    by (rule round64_value) (simp_all add: power_int_minus rne_def Let_def floor_rat_numeral)
  then show ?thesis by (simp add: power_int_minus)
qed

lemma slotLoop_fraction:
  assumes "x < c" "0 < x" "x < 60" "of_int \<lfloor>x\<rfloor> \<noteq> x" "js_add (Finite x) iv = nxt"
  shows "slotLoop (Finite x) (Finite c) iv acc = slotLoop nxt (Finite c) iv (acc @ [None])"
proof -
  have "\<not> x / 60 < 0" "\<lfloor>x / 60\<rfloor> = 0" using assms(2,3) by (simp_all add: floor_eq_iff)
  then have "js_rem (Finite x) (Finite 60) = Finite x" by simp
  moreover have "toString (Finite x) = None" using assms(4) by simp
  ultimately have "timeString (js_floor (js_div (Finite x) (Finite 60))) (js_rem (Finite x) (Finite 60)) = None"
    by (simp add: timeString_def split: option.splits)
  moreover have "js_lt (Finite x) (Finite c)" using assms(1) by simp
  ultimately show ?thesis using assms(5) by (simp add: slotLoop_next)
qed

text \<open>
  The claim C10 as stated (every interval \<open>\<ge> 1\<close> gives \<open>\<lceil>(close - open) / interval\<rceil>\<close> slots) fails:
  with the double nearest to 1.1 as interval, ten additions give 10.999999999999998, so that
  the list from 00:00 to 00:11 has 11 slots, where the ceiling is 10. The strings of the
  fractional slots are not computed.
\<close>

theorem generateTimeSlots_fraction_counterexample:
  "generateTimeSlots (str ''00:00'') (str ''00:11'') (Some (Finite (2476979795053773 / 2251799813685248))) =
     Slots [Some (str ''00:00''), None, None, None, None, None, None, None, None, None, None]
   \<and> round64 (11 / 10) = Finite (2476979795053773 / 2251799813685248)
   \<and> \<lceil>(11 - 0) / (2476979795053773 / 2251799813685248 :: rat)\<rceil> = 10"
proof -
  have i: "round64 (11 / 10) = Finite (2476979795053773 / 2251799813685248)"
  proof -
    have "round64 (11 / 10) = Finite (2 powi (0 - 52) * of_int 4953959590107546)"
      by (rule round64_value) (simp_all add: power_int_minus rne_def Let_def floor_rat_numeral)
    then show ?thesis by (simp add: power_int_minus)
  qed
  have s0: "slotLoop (Finite (of_int 0)) (Finite 11) (Finite (2476979795053773 / 2251799813685248)) [] =
              slotLoop (Finite (2476979795053773 / 2251799813685248)) (Finite 11) (Finite (2476979795053773 / 2251799813685248))
                [Some (clockString 0)]"
  proof -
    have "round64 (2476979795053773 / 2251799813685248) = Finite (2 powi (0 - 52) * of_int 4953959590107546)"
      by (rule round64_value) (simp_all add: power_int_minus rne_def Let_def floor_rat_numeral)
    then have "js_add (Finite 0) (Finite (2476979795053773 / 2251799813685248)) = Finite (2476979795053773 / 2251799813685248)"
      by (simp add: power_int_minus)
    moreover have "timeString (js_floor (js_div (Finite (of_int 0)) (Finite 60))) (js_rem (Finite (of_int 0)) (Finite 60))
             = Some (clockString 0)" by (rule clockString_timeString) simp_all
    ultimately show ?thesis by (subst slotLoop_next) simp_all
  qed
  have s1: "slotLoop (Finite (2476979795053773 / 2251799813685248)) (Finite 11) (Finite (2476979795053773 / 2251799813685248)) acc =
              slotLoop (Finite (2476979795053773 / 1125899906842624)) (Finite 11) (Finite (2476979795053773 / 2251799813685248)) (acc @ [None])" for acc
    by (rule slotLoop_fraction [OF _ _ _ _ tenth_step_1]) (simp_all add: floor_rat_numeral)
  have s2: "slotLoop (Finite (2476979795053773 / 1125899906842624)) (Finite 11) (Finite (2476979795053773 / 2251799813685248)) acc =
              slotLoop (Finite (7430939385161319 / 2251799813685248)) (Finite 11) (Finite (2476979795053773 / 2251799813685248)) (acc @ [None])" for acc
    by (rule slotLoop_fraction [OF _ _ _ _ tenth_step_2]) (simp_all add: floor_rat_numeral)
  have s3: "slotLoop (Finite (7430939385161319 / 2251799813685248)) (Finite 11) (Finite (2476979795053773 / 2251799813685248)) acc =
              slotLoop (Finite (2476979795053773 / 562949953421312)) (Finite 11) (Finite (2476979795053773 / 2251799813685248)) (acc @ [None])" for acc
    by (rule slotLoop_fraction [OF _ _ _ _ tenth_step_3]) (simp_all add: floor_rat_numeral)
  have s4: "slotLoop (Finite (2476979795053773 / 562949953421312)) (Finite 11) (Finite (2476979795053773 / 2251799813685248)) acc =
              slotLoop (Finite (11 / 2)) (Finite 11) (Finite (2476979795053773 / 2251799813685248)) (acc @ [None])" for acc
    by (rule slotLoop_fraction [OF _ _ _ _ tenth_step_4]) (simp_all add: floor_rat_numeral)
  have s5: "slotLoop (Finite (11 / 2)) (Finite 11) (Finite (2476979795053773 / 2251799813685248)) acc =
              slotLoop (Finite (3715469692580659 / 562949953421312)) (Finite 11) (Finite (2476979795053773 / 2251799813685248)) (acc @ [None])" for acc
    by (rule slotLoop_fraction [OF _ _ _ _ tenth_step_5]) (simp_all add: floor_rat_numeral)
  have s6: "slotLoop (Finite (3715469692580659 / 562949953421312)) (Finite 11) (Finite (2476979795053773 / 2251799813685248)) acc =
              slotLoop (Finite (2167357320672051 / 281474976710656)) (Finite 11) (Finite (2476979795053773 / 2251799813685248)) (acc @ [None])" for acc
    by (rule slotLoop_fraction [OF _ _ _ _ tenth_step_6]) (simp_all add: floor_rat_numeral)
  have s7: "slotLoop (Finite (2167357320672051 / 281474976710656)) (Finite 11) (Finite (2476979795053773 / 2251799813685248)) acc =
              slotLoop (Finite (4953959590107545 / 562949953421312)) (Finite 11) (Finite (2476979795053773 / 2251799813685248)) (acc @ [None])" for acc
    by (rule slotLoop_fraction [OF _ _ _ _ tenth_step_7]) (simp_all add: floor_rat_numeral)
  have s8: "slotLoop (Finite (4953959590107545 / 562949953421312)) (Finite 11) (Finite (2476979795053773 / 2251799813685248)) acc =
              slotLoop (Finite (1393301134717747 / 140737488355328)) (Finite 11) (Finite (2476979795053773 / 2251799813685248)) (acc @ [None])" for acc
    by (rule slotLoop_fraction [OF _ _ _ _ tenth_step_8]) (simp_all add: floor_rat_numeral)
  have s9: "slotLoop (Finite (1393301134717747 / 140737488355328)) (Finite 11) (Finite (2476979795053773 / 2251799813685248)) acc =
              slotLoop (Finite (6192449487634431 / 562949953421312)) (Finite 11) (Finite (2476979795053773 / 2251799813685248)) (acc @ [None])" for acc
    by (rule slotLoop_fraction [OF _ _ _ _ tenth_step_9]) (simp_all add: floor_rat_numeral)
  have s10: "slotLoop (Finite (6192449487634431 / 562949953421312)) (Finite 11) (Finite (2476979795053773 / 2251799813685248)) acc =
              slotLoop (Finite (3405847218198937 / 281474976710656)) (Finite 11) (Finite (2476979795053773 / 2251799813685248)) (acc @ [None])" for acc
    by (rule slotLoop_fraction [OF _ _ _ _ tenth_step_10]) (simp_all add: floor_rat_numeral)
  have s11: "slotLoop (Finite (3405847218198937 / 281474976710656)) (Finite 11) (Finite (2476979795053773 / 2251799813685248)) acc = Some acc" for acc
    by (rule slotLoop_done) simp
  have "slotLoop (Finite (of_int 0)) (Finite 11) (Finite (2476979795053773 / 2251799813685248)) [] =
          Some [Some (clockString 0), None, None, None, None, None, None, None, None, None, None]"
    unfolding s0 s1 s2 s3 s4 s5 s6 s7 s8 s9 s10 s11 by simp
  then have "generateTimeSlots (hhmm 0 0) (hhmm 0 11) (Some (Finite (2476979795053773 / 2251799813685248))) =
     Slots [Some (clockString 0), None, None, None, None, None, None, None, None, None, None]"
    by (subst generateTimeSlots_loop) simp_all
  moreover have "clockString 0 = str ''00:00''" by (simp add: clockString_def hhmm_str)
  moreover have "\<lceil>(11 - 0) / (2476979795053773 / 2251799813685248 :: rat)\<rceil> = 10"
    by (simp add: ceiling_eq_iff)
  ultimately show ?thesis using i by (simp add: hhmm_str clock_strings)
qed

subsection \<open>canProceed and getInitials\<close>


lemma trim_eq_Nil_iff: "trim s = [] \<longleftrightarrow> (\<forall>c\<in>set s. isJsSpace c)"
proof -
  have "trim s = [] \<longleftrightarrow> (\<forall>c\<in>set (dropWhile isJsSpace s). isJsSpace c)"
    by (simp add: trim_def)
  also have "\<dots> \<longleftrightarrow> dropWhile isJsSpace s = []"
  proof
    assume a: "\<forall>c\<in>set (dropWhile isJsSpace s). isJsSpace c"
    show "dropWhile isJsSpace s = []"
    proof (rule ccontr)
      assume n: "dropWhile isJsSpace s \<noteq> []"
      then have "\<not> isJsSpace (hd (dropWhile isJsSpace s))" by (rule hd_dropWhile)
      moreover have "hd (dropWhile isJsSpace s) \<in> set (dropWhile isJsSpace s)" using n by simp
      ultimately show False using a by blast
    qed
  qed (auto dest: set_dropWhileD)
  also have "\<dots> \<longleftrightarrow> (\<forall>c\<in>set s. isJsSpace c)" by simp
  finally show ?thesis .
qed

lemma trimmedTruthy_iff:
  "trimmedTruthy x \<longleftrightarrow> (\<exists>s. x = Val s \<and> s \<noteq> [] \<and> \<not> (\<forall>c\<in>set s. isJsSpace c))"
  by (cases x) (simp_all add: trim_eq_Nil_iff)

text \<open>
  Claim C5: step 1 passes exactly when client name and client phone are both strings that are
  non-empty and not made of white space only; step 2 exactly when the selected service is not
  \<open>null\<close>; step 3 exactly when a date is selected and the selected time is a non-empty string;
  every other step number is refused.
\<close>

theorem canProceed_gate:
  "(canProceed 1 fd \<longleftrightarrow>
      (\<exists>n. clientName fd = Val n \<and> n \<noteq> [] \<and> \<not> (\<forall>c\<in>set n. isJsSpace c))
      \<and> (\<exists>p. clientPhone fd = Val p \<and> p \<noteq> [] \<and> \<not> (\<forall>c\<in>set p. isJsSpace c)))
   \<and> (canProceed 2 fd \<longleftrightarrow> selectedService fd \<noteq> Null)
   \<and> (canProceed 3 fd \<longleftrightarrow>
        (\<exists>d. selectedDate fd = Val d) \<and> (\<exists>t. selectedTime fd = Val t \<and> t \<noteq> []))
   \<and> (step \<noteq> 1 \<and> step \<noteq> 2 \<and> step \<noteq> 3 \<longrightarrow> \<not> canProceed step fd)"
proof (intro conjI)
  show "canProceed 1 fd \<longleftrightarrow>
      (\<exists>n. clientName fd = Val n \<and> n \<noteq> [] \<and> \<not> (\<forall>c\<in>set n. isJsSpace c))
      \<and> (\<exists>p. clientPhone fd = Val p \<and> p \<noteq> [] \<and> \<not> (\<forall>c\<in>set p. isJsSpace c))"
    by (simp add: canProceed_def trimmedTruthy_iff)
  show "canProceed 2 fd \<longleftrightarrow> selectedService fd \<noteq> Null"
    by (simp add: canProceed_def)
  show "canProceed 3 fd \<longleftrightarrow>
        (\<exists>d. selectedDate fd = Val d) \<and> (\<exists>t. selectedTime fd = Val t \<and> t \<noteq> [])"
    by (cases "selectedDate fd"; cases "selectedTime fd") (simp_all add: canProceed_def)
  show "step \<noteq> 1 \<and> step \<noteq> 2 \<and> step \<noteq> 3 \<longrightarrow> \<not> canProceed step fd"
    by (simp add: canProceed_def)
qed

theorem canProceed_gate_witness:
  "canProceed 1 sampleForm \<and> \<not> canProceed 2 sampleForm \<and> \<not> canProceed 3 sampleForm
   \<and> \<not> canProceed 4 sampleForm
   \<and> \<not> canProceed 1 (sampleForm\<lparr>clientName := Val (str ''   '')\<rparr>)"
proof -
  have a: "str ''John'' \<noteq> []" "\<not> (\<forall>c\<in>set (str ''John''). isJsSpace c)"
    "str ''050-1234567'' \<noteq> []" "\<not> (\<forall>c\<in>set (str ''050-1234567''). isJsSpace c)"
    "\<forall>c\<in>set (str ''   ''). isJsSpace c"
    by (simp_all add: str_def isJsSpace_def)
  show ?thesis
    using canProceed_gate [of sampleForm 4] canProceed_gate [of "sampleForm\<lparr>clientName := Val (str ''   '')\<rparr>" 4] a
    by (simp add: sampleForm_def)
qed

lemma js_split_no_sep: "sep \<notin> set xs \<Longrightarrow> js_split sep xs = [xs]"
  by (induction xs) auto

lemma js_split_append: "sep \<notin> set xs \<Longrightarrow> js_split sep (xs @ sep # ys) = xs # js_split sep ys"
  by (induction xs) auto

lemma initials_skip_seps:
  "\<forall>c\<in>set pre. c = sep \<Longrightarrow>
     joinEmpty (map charAt0 (js_split sep (pre @ t))) = joinEmpty (map charAt0 (js_split sep t))"
  by (induction pre) (auto simp: joinEmpty_def charAt0_def)

lemma initials_cons:
  "joinEmpty (map charAt0 ((c # w) # ws)) = c # joinEmpty (map charAt0 ws)"
  "joinEmpty (map charAt0 ([] # ws)) = joinEmpty (map charAt0 ws)"
  "joinEmpty (map charAt0 []) = []"
  by (simp_all add: joinEmpty_def charAt0_def)

lemma initials_words:
  "joinEmpty (map charAt0 (js_split sp s)) = map hd (wordsBy (\<lambda>c. c = sp) s)"
proof (induction "\<lambda>c. c = sp" s rule: wordsBy.induct)
  case (1 s)
  let ?F = "\<lambda>t. joinEmpty (map charAt0 (js_split sp t))"
  have s: "s = takeWhile (\<lambda>c. c = sp) s @ dropWhile (\<lambda>c. c = sp) s" by simp
  have "\<forall>c\<in>set (takeWhile (\<lambda>c. c = sp) s). c = sp" by (auto dest: set_takeWhileD)
  from initials_skip_seps [OF this, of "dropWhile (\<lambda>c. c = sp) s"]
  have F: "?F s = ?F (dropWhile (\<lambda>c. c = sp) s)" by simp
  show ?case
  proof (cases "dropWhile (\<lambda>c. c = sp) s")
    case Nil
    have "wordsBy (\<lambda>c. c = sp) s = []"
      by (subst wordsBy.simps) (simp only: Nil list.case)
    moreover have "?F s = []" unfolding F Nil by (simp add: joinEmpty_def charAt0_def)
    ultimately show ?thesis by simp
  next
    case (Cons c r)
    then have c: "c \<noteq> sp" using hd_dropWhile [of "\<lambda>c. c = sp" s] by auto
    let ?w = "takeWhile (\<lambda>x. x \<noteq> sp) r" and ?rest = "dropWhile (\<lambda>x. x \<noteq> sp) r"
    have w: "sp \<notin> set (c # ?w)" using c by (auto dest: set_takeWhileD)
    have IH: "?F ?rest = map hd (wordsBy (\<lambda>c. c = sp) ?rest)" using 1 [OF Cons] by simp
    have wb: "wordsBy (\<lambda>c. c = sp) s = (c # ?w) # wordsBy (\<lambda>c. c = sp) ?rest"
      by (subst wordsBy.simps) (simp add: Cons)
    have "?F (c # r) = c # ?F ?rest"
    proof (cases ?rest)
      case Nil
      then have "r = ?w" by (metis append_Nil2 takeWhile_dropWhile_id)
      then have js: "js_split sp (c # r) = [c # r]" using w by (metis js_split_no_sep)
      have "?F (c # r) = [c]" unfolding js by (simp only: initials_cons)
      moreover have "?F ?rest = []" unfolding Nil by (simp add: joinEmpty_def charAt0_def)
      ultimately show ?thesis by (simp only:)
    next
      case (Cons d rest')
      then have d: "d = sp" using hd_dropWhile [of "\<lambda>x. x \<noteq> sp" r] by auto
      have "c # r = (c # ?w) @ sp # rest'" using Cons d by (metis append_Cons takeWhile_dropWhile_id)
      then have js: "js_split sp (c # r) = (c # ?w) # js_split sp rest'"
        using js_split_append [OF w, of rest'] by simp
      have "?F (c # r) = c # ?F rest'" unfolding js by (simp only: initials_cons)
      moreover have "?F ?rest = ?F rest'" unfolding Cons d by (simp add: joinEmpty_def charAt0_def)
      ultimately show ?thesis by (simp only:)
    qed
    then show ?thesis unfolding F Cons IH wb by simp
  qed
qed

text \<open>
  Claim C7: (as amended) \<open>getInitials\<close> splits the name at runs of the space character U+0020
  only, takes the first UTF-16 code unit of each word, and keeps at most two of them; \<open>null\<close>,
  \<open>undefined\<close> and the empty string give the empty string.
\<close>

theorem getInitials_space_words:
  "getInitials Undefined = [] \<and> getInitials Null = []
   \<and> getInitials (Val s) = take 2 (map hd (wordsBy (\<lambda>c. c = 0x20) s))
   \<and> length (getInitials (Val s)) \<le> 2"
proof -
  have "wordsBy (\<lambda>c. c = 0x20) [] = []" by (subst wordsBy.simps) simp
  then have "getInitials (Val s) = take 2 (map hd (wordsBy (\<lambda>c. c = 0x20) s))"
    by (cases "s = []") (simp_all add: getInitials_def initials_words)
  then show ?thesis by (simp add: getInitials_def)
qed

theorem getInitials_space_words_witness:
  "getInitials (Val (str ''John  Doe'')) = str ''JD''
   \<and> getInitials (Val [0x5D9, 0x5E2, 0x5E7, 0x5D1, 0x20, 0x5DB, 0x5D4, 0x5DF]) = [0x5D9, 0x5DB]"
proof -
  have "take 2 (map hd (wordsBy (\<lambda>c. c = 0x20) (str ''John  Doe''))) = str ''JD''" by code_simp
  moreover have "take 2 (map hd (wordsBy (\<lambda>c. c = 0x20) [0x5D9, 0x5E2, 0x5E7, 0x5D1, 0x20, 0x5DB, 0x5D4, 0x5DF]))
     = [0x5D9, 0x5DB]" by code_simp
  ultimately show ?thesis
    using getInitials_space_words [of "str ''John  Doe''"]
      getInitials_space_words [of "[0x5D9, 0x5E2, 0x5E7, 0x5D1, 0x20, 0x5DB, 0x5D4, 0x5DF]"]
    by simp
qed

text \<open>
  The claim C7 as stated (splitting at runs of any white space, on logical characters) fails:
  a tab does not separate words, and a character outside the Basic Multilingual Plane
  contributes only its leading surrogate.
\<close>

theorem getInitials_whitespace_counterexample:
  "getInitials (Val (str ''John'' @ [0x09] @ str ''Doe'')) = str ''J''
   \<and> take 2 (map hd (wordsBy isJsSpace (str ''John'' @ [0x09] @ str ''Doe''))) = str ''JD''
   \<and> getInitials (Val [0xD83D, 0xDE00, 0x20, 0x41]) = [0xD83D, 0x41]"
  by code_simp

subsection \<open>isValidPhone\<close>


lemma accepts_digit_class: "accepts (Class [(0x30, 0x39)]) c \<longleftrightarrow> isDigit c"
  by (simp add: isDigit_def word_le_nat_alt)

lemma accepts_five: "accepts (Class [(0x35, 0x35)]) c \<longleftrightarrow> c = 0x35"
  by auto

lemma accepts_dash: "accepts (Class [(0x2D, 0x2D)]) c \<longleftrightarrow> c = 0x2D"
  by auto

lemma matchItems_digits:
  "matchItems [Times n (Class [(0x30, 0x39)])] t \<longleftrightarrow> length t = n \<and> list_all isDigit t"
proof (induction n arbitrary: t)
  case 0
  then show ?case by auto
next
  case (Suc n)
  then show ?case by (cases t) (auto simp: accepts_digit_class simp del: accepts.simps)
qed

lemma matchItems_prefix:
  "matchItems phoneRegex t \<longleftrightarrow>
     (\<exists>d r. t = 0x30 # 0x35 # d # r \<and> isDigit d
        \<and> ((\<exists>cs. r = 0x2D # cs \<and> matchItems [Times 7 (Class [(0x30, 0x39)])] cs)
             \<or> matchItems [Times 7 (Class [(0x30, 0x39)])] r))"
  unfolding phoneRegex_def
  by (auto simp: accepts_digit_class accepts_five accepts_dash simp del: accepts.simps(2)
      split: list.splits)

lemma matchItems_phoneRegex:
  "matchItems phoneRegex t \<longleftrightarrow>
     (\<exists>d ds. isDigit d \<and> length ds = 7 \<and> list_all isDigit ds
        \<and> (t = [0x30, 0x35, d] @ ds \<or> t = [0x30, 0x35, d, 0x2D] @ ds))"
  unfolding matchItems_prefix matchItems_digits by auto

text \<open>
  Claim C8: \<open>isValidPhone\<close> holds exactly when the argument is a string whose characters other
  than white space are \<open>0\<close>, \<open>5\<close>, one digit, an optional \<open>-\<close> and exactly seven digits;
  \<open>null\<close>, \<open>undefined\<close> and the empty string are invalid. The function is total: it has no
  failing branch.
\<close>

theorem isValidPhone_pattern:
  "(isValidPhone phone \<longleftrightarrow>
      (\<exists>s d ds. phone = Val s \<and> isDigit d \<and> length ds = 7 \<and> list_all isDigit ds
         \<and> (filter (\<lambda>c. \<not> isJsSpace c) s = [0x30, 0x35, d] @ ds
              \<or> filter (\<lambda>c. \<not> isJsSpace c) s = [0x30, 0x35, d, 0x2D] @ ds)))
   \<and> \<not> isValidPhone Undefined \<and> \<not> isValidPhone Null \<and> \<not> isValidPhone (Val [])"
proof (intro conjI)
  show "isValidPhone phone \<longleftrightarrow>
      (\<exists>s d ds. phone = Val s \<and> isDigit d \<and> length ds = 7 \<and> list_all isDigit ds
         \<and> (filter (\<lambda>c. \<not> isJsSpace c) s = [0x30, 0x35, d] @ ds
              \<or> filter (\<lambda>c. \<not> isJsSpace c) s = [0x30, 0x35, d, 0x2D] @ ds))"
  proof (cases phone)
    case (Val s)
    show ?thesis
    proof (cases "s = []")
      case True
      then show ?thesis using Val by (simp add: isValidPhone_def)
    next
      case False
      then show ?thesis using Val by (simp add: isValidPhone_def matchItems_phoneRegex)
    qed
  qed (simp_all add: isValidPhone_def)
qed (simp_all add: isValidPhone_def)

theorem isValidPhone_pattern_witness:
  "isValidPhone (Val (str '' 050-1234567 '')) \<and> isValidPhone (Val (str ''0501234567''))
   \<and> \<not> isValidPhone (Val (str ''060-1234567'')) \<and> \<not> isValidPhone (Val (str ''050-123456''))"
proof -
  have "isValidPhone (Val (str '' 050-1234567 ''))" "isValidPhone (Val (str ''0501234567''))"
    "\<not> isValidPhone (Val (str ''060-1234567''))" "\<not> isValidPhone (Val (str ''050-123456''))"
    by code_simp+
  then show ?thesis using isValidPhone_pattern [of "Val (str ''0501234567'')"] by simp
qed

subsection \<open>getStatsForPeriod: the period tag and the income change\<close>


lemma periodStart_valid:
  assumes "period \<in> {str ''today'', str ''week'', str ''month'', str ''year''}"
  shows "\<exists>startDate. periodStart h period referenceDate = Inr startDate"
  using assms by (auto simp: periodStart_def Let_def)

lemma periodStart_invalid:
  assumes "period \<notin> {str ''today'', str ''week'', str ''month'', str ''year''}"
  shows "periodStart h period referenceDate = Inl (Error (str ''Invalid period: '' @ period))"
  using assms by (simp add: periodStart_def Let_def)

text \<open>
  Claim C2: for a period tag other than \<open>today\<close>, \<open>week\<close>, \<open>month\<close>, \<open>year\<close>,
  \<open>getStatsForPeriod\<close> throws an error whose message is \<open>Invalid period: \<close> followed by the tag,
  whatever the appointments and the reference date; no statistics are returned.
\<close>

theorem getStatsForPeriod_invalid_period:
  assumes "period \<notin> {str ''today'', str ''week'', str ''month'', str ''year''}"
  shows "getStatsForPeriod h appointments period referenceDate =
           Inl (Error (str ''Invalid period: '' @ period))
         \<and> (\<forall>r. getStatsForPeriod h appointments period referenceDate \<noteq> Inr r)"
  using periodStart_invalid [OF assms] by (simp add: getStatsForPeriod_def Let_def)

theorem getStatsForPeriod_invalid_period_witness:
  "getStatsForPeriod utcHost mockAppointments (str ''invalid_period'') (Some (utcParse (str ''2025-01-15'')))
     = Inl (Error (str ''Invalid period: invalid_period''))"
proof -
  have "str ''invalid_period'' \<notin> {str ''today'', str ''week'', str ''month'', str ''year''}"
    by (simp add: str_def)
  from getStatsForPeriod_invalid_period [OF this] show ?thesis by (simp add: str_def)
qed

lemma round64_interval:
  assumes r: "2 powi (- 1022) \<le> x" "x < overflow" and x: "0 \<le> lo" "lo \<le> x" "x \<le> hi"
  shows "\<exists>y. round64 x = Finite y \<and> lo * (999999 / 1000000) \<le> y \<and> y \<le> hi * (1000001 / 1000000)"
proof -
  from round64_rel_error [OF r]
  obtain y where y: "round64 x = Finite y" "\<bar>y - x\<bar> \<le> x / 2 ^ 53" by blast
  have "(1::rat) / 2 ^ 53 \<le> 1 / 1000000" by simp
  moreover have "0 \<le> x" using x by simp
  ultimately have "x / 2 ^ 53 \<le> x / 1000000"
    by (simp add: field_simps)
  then have "\<bar>y - x\<bar> \<le> x / 1000000" using y(2) by linarith
  then have "x - x / 1000000 \<le> y" "y \<le> x + x / 1000000" by linarith+
  moreover have "lo * (999999 / 1000000) \<le> x - x / 1000000" using x by simp
  moreover have "x + x / 1000000 \<le> hi * (1000001 / 1000000)" using x by simp
  ultimately show ?thesis using y(1) by force
qed

lemma quotient_interval:
  fixes T D P :: rat
  assumes "0 < T" "dl * T \<le> D" "D \<le> dh * T" "pl * T \<le> P" "P \<le> ph * T" "0 < pl" "0 \<le> dl"
  shows "dl / ph \<le> D / P \<and> D / P \<le> dh / pl"
proof -
  have "0 < pl * T" using assms by simp
  then have P: "0 < P" using assms(4) by linarith
  then have "0 < ph * T" using assms(5) by linarith
  then have ph: "0 < ph" using assms(1) by (rule zero_less_mult_pos2)
  have "dl / ph * P \<le> dl / ph * (ph * T)"
    using assms ph by (intro mult_left_mono) simp_all
  also have "\<dots> = dl * T" using ph by simp
  finally have 1: "dl / ph \<le> D / P" using P assms(2) by (simp add: pos_le_divide_eq)
  have "0 \<le> dl * T" using assms by simp
  then have "0 \<le> dh * T" using assms(2,3) by linarith
  then have dh: "0 \<le> dh" using assms(1) by (simp add: zero_le_mult_iff)
  have "D \<le> dh * T" by fact
  also have "dh * T = dh / pl * (pl * T)" using assms by simp
  also have "\<dots> \<le> dh / pl * P" using assms dh by (intro mult_left_mono) simp_all
  finally have 2: "D / P \<le> dh / pl" using P by (simp add: pos_divide_le_eq)
  from 1 2 show ?thesis ..
qed

lemma tiny: "(2::rat) powi (- 1022) \<le> 1 / 1000" "(0::rat) < 2 powi (- 1022)"
  "(2::rat) powi (- 1019) = 8 * 2 powi (- 1022)"
proof -
  show "(0::rat) < 2 powi (- 1022)" by (rule pow2_pos)
  have "(2::rat) powi (- 1022) \<le> 2 powi (- 10)" by (intro power_int_increasing) simp_all
  also have "\<dots> \<le> 1 / 1000" by (simp add: power_int_minus)
  finally show "(2::rat) powi (- 1022) \<le> 1 / 1000" .
  show "(2::rat) powi (- 1019) = 8 * 2 powi (- 1022)"
    using power_int_add [of "2::rat" 3 "- 1022"] by simp
qed

lemma overflow_1000: "1000 < overflow"
  using overflow_big by simp

lemma literal_0_85:
  "\<exists>c. round64 (85 / 100) = Finite c \<and> 849999 / 1000000 \<le> c \<and> c \<le> 850001 / 1000000"
proof -
  have "2 powi (- 1022) \<le> (85 / 100 :: rat)" using tiny(1) by simp
  moreover have "(85 / 100 :: rat) < overflow" using overflow_big by simp
  ultimately obtain y where "round64 (85 / 100) = Finite y"
    "85 / 100 * (999999 / 1000000) \<le> y" "y \<le> 85 / 100 * (1000001 / 1000000)"
    using round64_interval [of "85 / 100" "85 / 100" "85 / 100"] by auto
  then show ?thesis by (intro exI [of _ y]) simp
qed

text \<open>
  The income change of a total \<open>T\<close> in the normal range of binary64: every intermediate result
  is rounded with a relative error of at most \<open>2\<^sup>-\<^sup>5\<^sup>3\<close>, and the last one lies between 17.64 and
  17.65.
\<close>

lemma incomeChange_constant:
  assumes T: "2 powi (- 1019) \<le> T" "T < overflow"
  defines "P \<equiv> js_mul (Finite T) (round64 (85 / 100))"
  shows "js_lt (Finite 0) P"
    and "js_round (js_mul (js_div (js_sub (Finite T) P) P) (Finite 100)) = Finite 18"
proof -
  define t :: rat where "t = 2 powi (- 1022)"
  have t: "0 < t" "t \<le> 1 / 1000" "8 * t \<le> T" using tiny T(1) by (simp_all add: t_def)
  then have Tpos: "0 < T" by linarith
  obtain c where c: "round64 (85 / 100) = Finite c" "849999 / 1000000 \<le> c" "c \<le> 850001 / 1000000"
    using literal_0_85 by blast
  have Tc: "849999 / 1000000 * T \<le> T * c" "T * c \<le> 850001 / 1000000 * T"
    using c Tpos by (simp_all add: mult.commute)
  have "t \<le> T * c" using Tc(1) t by linarith
  moreover have "T * c < overflow" using Tc(2) T(2) Tpos by linarith
  moreover have "0 \<le> 849999 / 1000000 * T" using Tpos by simp
  ultimately obtain p where p: "round64 (T * c) = Finite p"
    "849999 / 1000000 * T * (999999 / 1000000) \<le> p" "p \<le> 850001 / 1000000 * T * (1000001 / 1000000)"
    using round64_interval [OF _ _ _ Tc] unfolding t_def by blast
  have P: "P = Finite p" unfolding P_def c by (simp add: p)
  have pb: "849998 / 1000000 * T \<le> p" "p \<le> 850002 / 1000000 * T"
    using p(2,3) Tpos by (simp_all add: field_simps)
  then have ppos: "0 < p" using Tpos by linarith
  then show "js_lt (Finite 0) P" by (simp add: P)
  have d: "149998 / 1000000 * T \<le> T - p" "T - p \<le> 150002 / 1000000 * T"
    using pb by (simp_all add: field_simps)
  have "t \<le> T - p" using d(1) t by linarith
  moreover have "T - p < overflow" using ppos T(2) by linarith
  moreover have "0 \<le> 149998 / 1000000 * T" using Tpos by simp
  ultimately obtain dd where dd: "round64 (T - p) = Finite dd"
    "149998 / 1000000 * T * (999999 / 1000000) \<le> dd" "dd \<le> 150002 / 1000000 * T * (1000001 / 1000000)"
    using round64_interval [OF _ _ _ d] unfolding t_def by blast
  have D: "js_sub (Finite T) P = Finite dd" by (simp add: P js_sub_def dd)
  have db: "149997 / 1000000 * T \<le> dd" "dd \<le> 150003 / 1000000 * T"
    using dd(2,3) Tpos by (simp_all add: field_simps)
  from quotient_interval [OF Tpos db pb]
  have "(149997 / 1000000) / (850002 / 1000000) \<le> dd / p"
    "dd / p \<le> (150003 / 1000000) / (849998 / 1000000)" by simp_all
  then have q: "17646 / 100000 \<le> dd / p" "dd / p \<le> 17648 / 100000" by simp_all
  have "t \<le> dd / p" using q(1) t by linarith
  moreover have "dd / p < overflow" using q(2) overflow_1000 by linarith
  ultimately obtain qq where qq: "round64 (dd / p) = Finite qq"
    "17646 / 100000 * (999999 / 1000000) \<le> qq" "qq \<le> 17648 / 100000 * (1000001 / 1000000)"
    using round64_interval [OF _ _ _ q] unfolding t_def by auto
  have Q: "js_div (Finite dd) (Finite p) = Finite qq" using ppos by (simp add: qq)
  have qb: "17645 / 1000 \<le> qq * 100" "qq * 100 \<le> 17649 / 1000" using qq(2,3) by simp_all
  have "t \<le> qq * 100" using qb(1) t by linarith
  moreover have "qq * 100 < overflow" using qb(2) overflow_1000 by linarith
  ultimately obtain rr where rr: "round64 (qq * 100) = Finite rr"
    "17645 / 1000 * (999999 / 1000000) \<le> rr" "rr \<le> 17649 / 1000 * (1000001 / 1000000)"
    using round64_interval [OF _ _ _ qb] unfolding t_def by auto
  have R: "js_mul (Finite qq) (Finite 100) = Finite rr" by (simp add: rr)
  have "1764 / 100 \<le> rr" "rr \<le> 1765 / 100" using rr(2,3) by simp_all
  then have "\<lfloor>rr + 1 / 2\<rfloor> = 18" by (simp add: floor_eq_iff)
  then show "js_round (js_mul (js_div (js_sub (Finite T) P) P) (Finite 100)) = Finite 18"
    unfolding D unfolding P Q R by simp
qed

lemma incomeChange_nonpositive:
  assumes "T \<le> 0"
  shows "\<not> js_lt (Finite 0) (js_mul (Finite T) (round64 (85 / 100)))"
proof -
  obtain c where c: "round64 (85 / 100) = Finite c" "849999 / 1000000 \<le> c"
    using literal_0_85 by blast
  have "T * c \<le> 0" using assms c(2) by (simp add: mult_le_0_iff)
  from round64_nonpos [OF this] show ?thesis unfolding c by auto
qed

lemma prev_infinite:
  "js_mul PosInf (round64 (85 / 100)) = PosInf" "js_mul NegInf (round64 (85 / 100)) = NegInf"
proof -
  obtain c where c: "round64 (85 / 100) = Finite c" "849999 / 1000000 \<le> c"
    using literal_0_85 by blast
  then have "0 < c" by simp
  then show "js_mul PosInf (round64 (85 / 100)) = PosInf" "js_mul NegInf (round64 (85 / 100)) = NegInf"
    unfolding c by simp_all
qed

lemma incomeChange_special:
  "js_round (js_mul (js_div (js_sub PosInf (js_mul PosInf (round64 (85 / 100))))
                            (js_mul PosInf (round64 (85 / 100)))) (Finite 100)) = NaN"
  "js_lt (Finite 0) (js_mul PosInf (round64 (85 / 100)))"
  "\<not> js_lt (Finite 0) (js_mul NegInf (round64 (85 / 100)))"
  "\<not> js_lt (Finite 0) (js_mul NaN (round64 (85 / 100)))"
  unfolding prev_infinite by (simp_all add: js_sub_def)

lemma js_add_bounded:
  assumes "js_add a b = Finite y"
  shows "\<bar>y\<bar> < overflow"
  using assms round64_bounded by (cases a; cases b) auto

lemma sum_bounded:
  assumes "foldl (\<lambda>sum apt. js_add sum (price apt)) (Finite 0) apts = Finite T"
  shows "\<bar>T\<bar> < overflow"
proof (cases apts rule: rev_cases)
  case Nil
  then show ?thesis using assms overflow_pos by simp
next
  case (snoc xs a)
  then show ?thesis using assms js_add_bounded by simp
qed

text \<open>
  Claim C9: (as amended) for a valid period tag, \<open>totalIncome\<close> is the sum, in doubles, of the
  prices of the filtered appointments, and \<open>incomeChange\<close> is 18, which is also the value of
  \<open>round(((T - 0.85 T) / (0.85 T)) * 100)\<close> in exact arithmetic, whenever \<open>totalIncome\<close> is a finite
  number \<open>T \<ge> 2\<^sup>-\<^sup>1\<^sup>0\<^sup>1\<^sup>9\<close>; it is 0 when \<open>totalIncome\<close> is 0, negative, \<open>-Infinity\<close> or NaN, and it is
  NaN when \<open>totalIncome\<close> is \<open>Infinity\<close>.
\<close>

theorem incomeChange_synthetic:
  assumes "period \<in> {str ''today'', str ''week'', str ''month'', str ''year''}"
  shows "\<exists>r startDate.
           getStatsForPeriod h appointments period referenceDate = Inr r
           \<and> periodStart h period (case referenceDate of None \<Rightarrow> clock h | Some d \<Rightarrow> d) = Inr startDate
           \<and> totalIncome r =
               foldl (\<lambda>sum apt. js_add sum (price apt)) (Finite 0)
                 (filter (\<lambda>apt. js_ge (parseDate h (date apt)) startDate
                                 \<and> status apt \<noteq> str ''cancelled'') appointments)
           \<and> (\<forall>T. totalIncome r = Finite T \<and> 2 powi (- 1019) \<le> T \<longrightarrow>
                 incomeChange r = Finite 18
                 \<and> incomeChange r =
                     Finite (of_int \<lfloor>(T - 85 / 100 * T) / (85 / 100 * T) * 100 + 1 / 2\<rfloor>))
           \<and> (\<forall>T. totalIncome r = Finite T \<and> T \<le> 0 \<longrightarrow> incomeChange r = Finite 0)
           \<and> (totalIncome r = PosInf \<longrightarrow> incomeChange r = NaN)
           \<and> (totalIncome r = NegInf \<or> totalIncome r = NaN \<longrightarrow> incomeChange r = Finite 0)"
proof -
  obtain startDate where s: "periodStart h period (case referenceDate of None \<Rightarrow> clock h | Some d \<Rightarrow> d) = Inr startDate"
    using periodStart_valid [OF assms(1)] by blast
  define total where "total = foldl (\<lambda>sum apt. js_add sum (price apt)) (Finite 0) (periodAppointments h startDate appointments)"
  define P where "P = js_mul total (round64 (85 / 100))"
  obtain r where r: "getStatsForPeriod h appointments period referenceDate = Inr r"
    and t: "totalIncome r = total"
    and c: "incomeChange r = (if js_lt (Finite 0) P
                              then js_round (js_mul (js_div (js_sub total P) P) (Finite 100)) else Finite 0)"
    by (simp add: getStatsForPeriod_def periodStats_def s Let_def total_def P_def)
  have pos: "incomeChange r = Finite 18" if "total = Finite T" "2 powi (- 1019) \<le> T" for T
  proof -
    have "\<bar>T\<bar> < overflow" using that(1) sum_bounded unfolding total_def by blast
    then have "T < overflow" by simp
    from incomeChange_constant [OF that(2) this] show ?thesis unfolding c P_def that(1) by simp
  qed
  have exact: "\<lfloor>(T - 85 / 100 * T) / (85 / 100 * T) * 100 + 1 / 2\<rfloor> = 18" if "2 powi (- 1019) \<le> T" for T :: rat
  proof -
    have "0 < T" using that pow2_pos [of "- 1019"] by linarith
    then have "(T - 85 / 100 * T) / (85 / 100 * T) = 15 / 85"
      by (simp add: field_simps)
    then show ?thesis by (simp add: floor_eq_iff)
  qed
  have zero: "incomeChange r = Finite 0" if "total = Finite T" "T \<le> 0" for T
    using incomeChange_nonpositive [OF that(2)] unfolding c P_def that(1) by simp
  have inf: "incomeChange r = NaN" if "total = PosInf"
    unfolding c P_def that using incomeChange_special(1,2) by simp
  have other: "incomeChange r = Finite 0" if "total = NegInf \<or> total = NaN"
    using that unfolding c P_def using incomeChange_special(3,4) by auto
  have "getStatsForPeriod h appointments period referenceDate = Inr r
           \<and> periodStart h period (case referenceDate of None \<Rightarrow> clock h | Some d \<Rightarrow> d) = Inr startDate
           \<and> totalIncome r = total
           \<and> (\<forall>T. totalIncome r = Finite T \<and> 2 powi (- 1019) \<le> T \<longrightarrow>
                 incomeChange r = Finite 18
                 \<and> incomeChange r =
                     Finite (of_int \<lfloor>(T - 85 / 100 * T) / (85 / 100 * T) * 100 + 1 / 2\<rfloor>))
           \<and> (\<forall>T. totalIncome r = Finite T \<and> T \<le> 0 \<longrightarrow> incomeChange r = Finite 0)
           \<and> (totalIncome r = PosInf \<longrightarrow> incomeChange r = NaN)
           \<and> (totalIncome r = NegInf \<or> totalIncome r = NaN \<longrightarrow> incomeChange r = Finite 0)"
    using r s t pos exact zero inf other by auto
  then show ?thesis unfolding total_def periodAppointments_def by blast
qed

subsection \<open>Running getStatsForPeriod on the UTC host\<close>


lemmas utc_defs = utcHost_def utcParse_def MakeDay_def MonthFromDay_def DateFromDay_def
  YearFromDay_def DayFromYear_def monthStarts_def InLeapYear_def TimeClip_def msPerDay_def
  readDigits_def isDigit_def decimalValue_def str_def Let_def
  utcSetHours0_def utcGetDate_def utcSetDate_def utcGetMonth_def utcSetMonth_def
  utcGetFullYear_def utcSetFullYear_def

lemma periodStart_week:
  "periodStart utcHost (str ''week'') (Some 1736899200000) = Inr (Some 1736294400000)"
  by (simp add: periodStart_def utc_defs)

lemma mock_period:
  "periodAppointments utcHost (Some 1736294400000) mockAppointments =
     [mkApt 1 ''2025-01-10'' ''completed'' 100 ''haircut'',
      mkApt 2 ''2025-01-11'' ''completed'' 130 ''haircut + beard'',
      mkApt 3 ''2025-01-12'' ''confirmed'' 70 ''beard'',
      mkApt 5 ''2025-01-14'' ''completed'' 100 ''haircut'']"
  by (simp add: periodAppointments_def mockAppointments_def mkApt_def js_ge_def utc_defs)

lemma round64_numeral:
  "(numeral k :: int) \<le> 2 ^ 53 \<Longrightarrow> round64 (numeral k) = Finite (numeral k)"
  using round64_int [of "numeral k"] by simp

text \<open>Two prices whose sum overflows.\<close>

lemma large_period:
  "periodAppointments utcHost (Some 1736294400000) largeAppointments = largeAppointments"
  by (simp add: periodAppointments_def largeAppointments_def mkApt_def js_ge_def utc_defs)

lemma large_total:
  "foldl (\<lambda>sum apt. js_add sum (price apt)) (Finite 0) largeAppointments = PosInf"
proof -
  have "round64 (of_int 1 * 2 powi 1023) = Finite (of_int 1 * 2 powi 1023)"
    by (rule round64_exact) (simp_all add: overflow_def)
  then have r1: "round64 (2 ^ 1023) = Finite (2 ^ 1023)" by simp
  have r2: "round64 (2 ^ 1023 + 2 ^ 1023) = PosInf" by (simp add: round64_def overflow_def)
  show ?thesis
    by (simp add: largeAppointments_def mkApt_def r1 [simplified] r2 [simplified])
qed

lemma large_stats:
  "periodStats largeAppointments =
     \<lparr>totalIncome = PosInf, totalAppointments = 2, completedAppointments = 0, avgIncome = PosInf,
      popularService = str ''haircut'', incomeChange = NaN\<rparr>"
proof -
  have n: "int (length largeAppointments) = 2" by (simp add: largeAppointments_def)
  have comp: "int (length (filter (\<lambda>apt. status apt = str ''completed'') largeAppointments)) = 0"
    by (simp add: largeAppointments_def mkApt_def str_def)
  have pop: "js_sort (\<lambda>a b. snd b - snd a)
               (Object_entries (foldl (\<lambda>obj apt. countService obj (service apt)) [] largeAppointments))
             = [(str ''haircut'', 2)]"
    by (simp add: largeAppointments_def mkApt_def countService_def Object_entries_def
        arrayIndex_def js_sort_def isDigit_def str_def)
  show ?thesis
    unfolding periodStats_def Let_def large_total n comp pop prev_infinite(1)
    by (simp add: js_sub_def)
qed

lemma unpriced_period:
  "periodAppointments utcHost (Some 1736294400000) unpricedAppointments = unpricedAppointments"
  by (simp add: periodAppointments_def unpricedAppointments_def mkApt_def js_ge_def utc_defs)

theorem incomeChange_synthetic_witness:
  "(\<exists>r. getStatsForPeriod utcHost mockAppointments (str ''week'') (Some (Some 1736899200000)) = Inr r
       \<and> totalIncome r = Finite 400 \<and> incomeChange r = Finite 18)
   \<and> (\<exists>r. getStatsForPeriod utcHost [] (str ''week'') (Some (Some 1736899200000)) = Inr r
       \<and> totalIncome r = Finite 0 \<and> incomeChange r = Finite 0)
   \<and> (\<exists>r. getStatsForPeriod utcHost largeAppointments (str ''week'') (Some (Some 1736899200000)) = Inr r
       \<and> totalIncome r = PosInf \<and> incomeChange r = NaN)
   \<and> (\<exists>r. getStatsForPeriod utcHost unpricedAppointments (str ''week'') (Some (Some 1736899200000)) = Inr r
       \<and> totalIncome r = NaN \<and> incomeChange r = Finite 0)"
proof -
  have v: "str ''week'' \<in> {str ''today'', str ''week'', str ''month'', str ''year''}" by simp
  have small: "2 powi (- 1019) \<le> (400::rat)" using tiny by simp
  have inst: "\<exists>r. getStatsForPeriod utcHost apts (str ''week'') (Some (Some 1736899200000)) = Inr r
           \<and> totalIncome r =
               foldl (\<lambda>sum apt. js_add sum (price apt)) (Finite 0)
                 (periodAppointments utcHost (Some 1736294400000) apts)
           \<and> (\<forall>T. totalIncome r = Finite T \<and> 2 powi (- 1019) \<le> T \<longrightarrow>
                 incomeChange r = Finite 18
                 \<and> incomeChange r =
                     Finite (of_int \<lfloor>(T - 85 / 100 * T) / (85 / 100 * T) * 100 + 1 / 2\<rfloor>))
           \<and> (\<forall>T. totalIncome r = Finite T \<and> T \<le> 0 \<longrightarrow> incomeChange r = Finite 0)
           \<and> (totalIncome r = PosInf \<longrightarrow> incomeChange r = NaN)
           \<and> (totalIncome r = NegInf \<or> totalIncome r = NaN \<longrightarrow> incomeChange r = Finite 0)" for apts
  proof -
    from incomeChange_synthetic [OF v, of utcHost apts "Some (Some 1736899200000)"]
    obtain r startDate where r: "getStatsForPeriod utcHost apts (str ''week'') (Some (Some 1736899200000)) = Inr r
           \<and> periodStart utcHost (str ''week'')
                (case Some (Some 1736899200000) of None \<Rightarrow> clock utcHost | Some d \<Rightarrow> d) = Inr startDate
           \<and> totalIncome r =
               foldl (\<lambda>sum apt. js_add sum (price apt)) (Finite 0)
                 (filter (\<lambda>apt. js_ge (parseDate utcHost (date apt)) startDate
                                 \<and> status apt \<noteq> str ''cancelled'') apts)
           \<and> (\<forall>T. totalIncome r = Finite T \<and> 2 powi (- 1019) \<le> T \<longrightarrow>
                 incomeChange r = Finite 18
                 \<and> incomeChange r =
                     Finite (of_int \<lfloor>(T - 85 / 100 * T) / (85 / 100 * T) * 100 + 1 / 2\<rfloor>))
           \<and> (\<forall>T. totalIncome r = Finite T \<and> T \<le> 0 \<longrightarrow> incomeChange r = Finite 0)
           \<and> (totalIncome r = PosInf \<longrightarrow> incomeChange r = NaN)
           \<and> (totalIncome r = NegInf \<or> totalIncome r = NaN \<longrightarrow> incomeChange r = Finite 0)"
      by blast
    then have "startDate = Some 1736294400000" using periodStart_week by simp
    then show ?thesis using r unfolding periodAppointments_def by blast
  qed
  from inst [of mockAppointments]
  obtain r1 where r1: "getStatsForPeriod utcHost mockAppointments (str ''week'') (Some (Some 1736899200000)) = Inr r1"
    and t1: "totalIncome r1 = foldl (\<lambda>sum apt. js_add sum (price apt)) (Finite 0)
                              (periodAppointments utcHost (Some 1736294400000) mockAppointments)"
    and c1: "\<forall>T. totalIncome r1 = Finite T \<and> 2 powi (- 1019) \<le> T \<longrightarrow>
                 incomeChange r1 = Finite 18
                 \<and> incomeChange r1 =
                     Finite (of_int \<lfloor>(T - 85 / 100 * T) / (85 / 100 * T) * 100 + 1 / 2\<rfloor>)"
    by blast
  have "totalIncome r1 = Finite 400"
    unfolding t1 mock_period by (simp add: mkApt_def round64_numeral)
  then have 1: "\<exists>r. getStatsForPeriod utcHost mockAppointments (str ''week'') (Some (Some 1736899200000)) = Inr r
       \<and> totalIncome r = Finite 400 \<and> incomeChange r = Finite 18"
    using r1 c1 small by blast
  from inst [of "[]"]
  obtain r2 where r2: "getStatsForPeriod utcHost [] (str ''week'') (Some (Some 1736899200000)) = Inr r2"
    and t2: "totalIncome r2 = foldl (\<lambda>sum apt. js_add sum (price apt)) (Finite 0)
                              (periodAppointments utcHost (Some 1736294400000) [])"
    and c2: "\<forall>T. totalIncome r2 = Finite T \<and> T \<le> 0 \<longrightarrow> incomeChange r2 = Finite 0"
    by blast
  have "totalIncome r2 = Finite 0" unfolding t2 by (simp add: periodAppointments_def)
  then have 2: "\<exists>r. getStatsForPeriod utcHost [] (str ''week'') (Some (Some 1736899200000)) = Inr r
       \<and> totalIncome r = Finite 0 \<and> incomeChange r = Finite 0"
    using r2 c2 by auto
  from inst [of largeAppointments]
  obtain r3 where r3: "getStatsForPeriod utcHost largeAppointments (str ''week'') (Some (Some 1736899200000)) = Inr r3"
    and t3: "totalIncome r3 = foldl (\<lambda>sum apt. js_add sum (price apt)) (Finite 0)
                              (periodAppointments utcHost (Some 1736294400000) largeAppointments)"
    and c3: "totalIncome r3 = PosInf \<longrightarrow> incomeChange r3 = NaN"
    by blast
  have "totalIncome r3 = PosInf" unfolding t3 large_period by (rule large_total)
  then have 3: "\<exists>r. getStatsForPeriod utcHost largeAppointments (str ''week'') (Some (Some 1736899200000)) = Inr r
       \<and> totalIncome r = PosInf \<and> incomeChange r = NaN"
    using r3 c3 by auto
  from inst [of unpricedAppointments]
  obtain r4 where r4: "getStatsForPeriod utcHost unpricedAppointments (str ''week'') (Some (Some 1736899200000)) = Inr r4"
    and t4: "totalIncome r4 = foldl (\<lambda>sum apt. js_add sum (price apt)) (Finite 0)
                              (periodAppointments utcHost (Some 1736294400000) unpricedAppointments)"
    and c4: "totalIncome r4 = NegInf \<or> totalIncome r4 = NaN \<longrightarrow> incomeChange r4 = Finite 0"
    by blast
  have "totalIncome r4 = NaN" unfolding t4 unpriced_period by (simp add: unpricedAppointments_def mkApt_def)
  then have 4: "\<exists>r. getStatsForPeriod utcHost unpricedAppointments (str ''week'') (Some (Some 1736899200000)) = Inr r
       \<and> totalIncome r = NaN \<and> incomeChange r = Finite 0"
    using r4 c4 by auto
  from 1 2 3 4 show ?thesis by blast
qed

text \<open>
  The claim C9 as stated (18 whenever \<open>totalIncome\<close> is positive) fails: two prices of
  \<open>2\<^sup>1\<^sup>0\<^sup>2\<^sup>3\<close> sum to \<open>Infinity\<close>, which is positive, and the income change is NaN.
\<close>

theorem incomeChange_overflow_counterexample:
  "getStatsForPeriod utcHost largeAppointments (str ''week'') (Some (Some 1736899200000)) =
     Inr \<lparr>totalIncome = PosInf, totalAppointments = 2, completedAppointments = 0, avgIncome = PosInf,
          popularService = str ''haircut'', incomeChange = NaN\<rparr>"
proof -
  have "getStatsForPeriod utcHost largeAppointments (str ''week'') (Some (Some 1736899200000)) =
          Inr (periodStats largeAppointments)"
    using periodStart_week by (simp add: getStatsForPeriod_def large_period)
  then show ?thesis by (simp only: large_stats)
qed

subsection \<open>getStatsForPeriod: the popular service\<close>

subsubsection \<open>Array-index keys are canonical\<close>

lemma decimalValue_snoc: "decimalValue (t @ [c]) = 10 * decimalValue t + (uint c - 48)"
  by (simp add: decimalValue_def)

lemma decimalValue_single: "decimalValue [c] = uint c - 48"
  by (simp add: decimalValue_def)

lemma isDigit_uint: "isDigit c \<Longrightarrow> 48 \<le> uint c \<and> uint c \<le> 57"
  unfolding isDigit_def uint_nat by linarith

lemma decimalValue_pos:
  "t \<noteq> [] \<Longrightarrow> list_all isDigit t \<Longrightarrow> hd t \<noteq> 0x30 \<Longrightarrow> 0 < decimalValue t"
proof (induction t rule: rev_induct)
  case Nil
  then show ?case by simp
next
  case (snoc c t)
  have cb: "48 \<le> uint c" "uint c \<le> 57" using snoc.prems isDigit_uint [of c] by simp_all
  show ?case
  proof (cases "t = []")
    case True
    then have c: "c \<noteq> 0x30" using snoc.prems by simp
    have "uint c \<noteq> 48"
    proof
      assume "uint c = 48"
      then have "uint c = uint (0x30 :: 16 word)" by simp
      then show False using c by (simp only: word_uint_eq_iff [symmetric])
    qed
    then have "48 < uint c" using cb by linarith
    then show ?thesis using True by (simp add: decimalValue_single)
  next
    case False
    then have "0 < decimalValue t" using snoc by simp
    then show ?thesis using cb by (simp add: decimalValue_snoc)
  qed
qed

lemma digitChar_of_digit: "isDigit c \<Longrightarrow> digitChar (nat (uint c - 48)) = c"
proof -
  assume c: "isDigit c"
  then have "48 \<le> unat c" by (simp add: isDigit_def)
  moreover have "nat (uint c - 48) = unat c - 48" by (simp add: nat_diff_distrib')
  ultimately have "48 + nat (uint c - 48) = unat c" by simp
  then show ?thesis by (simp add: digitChar_def del: of_nat_add)
qed

lemma digitsOf_decimalValue:
  assumes "s \<noteq> []" "list_all isDigit s" "s = [0x30] \<or> hd s \<noteq> 0x30"
  shows "digitsOf (nat (decimalValue s)) = s"
  using assms
proof (induction s rule: rev_induct)
  case Nil
  then show ?case by simp
next
  case (snoc c t)
  have c: "isDigit c" using snoc.prems by simp
  then have cb: "48 \<le> uint c" "uint c \<le> 57" using isDigit_uint [of c] by simp_all
  let ?d = "nat (uint c - 48)"
  have d10: "?d < 10" using cb by simp
  show ?case
  proof (cases "t = []")
    case True
    then have "nat (decimalValue (t @ [c])) = ?d" by (simp add: decimalValue_single)
    then show ?thesis using True d10 digitChar_of_digit [OF c]
      by (subst digitsOf.simps) simp
  next
    case False
    then have h: "hd t \<noteq> 0x30" using snoc.prems by auto
    have d: "list_all isDigit t" using snoc.prems by simp
    have pos: "0 < decimalValue t" using decimalValue_pos [OF False d h] .
    have IH: "digitsOf (nat (decimalValue t)) = t" using snoc.IH [OF False d] h by simp
    let ?v = "nat (decimalValue t)"
    have v: "nat (decimalValue (t @ [c])) = 10 * ?v + ?d"
      using pos cb by (simp add: decimalValue_snoc nat_add_distrib nat_mult_distrib)
    have "0 < ?v" using pos by simp
    then have big: "\<not> 10 * ?v + ?d < 10" by simp
    have dm: "(10 * ?v + ?d) div 10 = ?v" "(10 * ?v + ?d) mod 10 = ?d" using d10 by simp_all
    have "digitsOf (10 * ?v + ?d) = digitsOf ?v @ [digitChar ?d]"
      using big dm by (subst digitsOf.simps) simp
    then show ?thesis using v IH digitChar_of_digit [OF c] by simp
  qed
qed

lemma arrayIndex_canonical: "arrayIndex s = Some n \<Longrightarrow> s = digitsOf n"
  using digitsOf_decimalValue [of s] by (auto simp: arrayIndex_def split: if_splits)

lemma arrayIndex_inj: "arrayIndex a = Some n \<Longrightarrow> arrayIndex b = Some n \<Longrightarrow> a = b"
  using arrayIndex_canonical by metis

subsubsection \<open>The head of the sorted entries\<close>

lemma js_sort_head:
  "(case js_sort (\<lambda>a b. snd b - snd a) xs of [] \<Rightarrow> None | e # _ \<Rightarrow> Some e) = bestEntry xs"
proof (induction xs)
  case Nil
  then show ?case by (simp add: js_sort_def)
next
  case (Cons x xs)
  have s: "js_sort (\<lambda>a b. snd b - snd a) (x # xs) =
             insertBy (\<lambda>a b. snd b - snd a) x (js_sort (\<lambda>a b. snd b - snd a) xs)"
    by (simp add: js_sort_def)
  show ?case
  proof (cases "js_sort (\<lambda>a b. snd b - snd a) xs")
    case Nil
    then have "bestEntry xs = None" using Cons.IH by simp
    then show ?thesis using Nil s by simp
  next
    case sorted: (Cons y ys)
    then have "bestEntry xs = Some y" using Cons.IH by simp
    then show ?thesis using sorted s by simp
  qed
qed

lemma bestEntry_split:
  "bestEntry xs = Some y \<Longrightarrow>
     \<exists>us vs. xs = us @ y # vs \<and> (\<forall>e\<in>set us. snd e < snd y) \<and> (\<forall>e\<in>set vs. snd e \<le> snd y)"
proof (induction xs arbitrary: y)
  case Nil
  then show ?case by simp
next
  case (Cons x xs)
  show ?case
  proof (cases "bestEntry xs")
    case None
    then have "xs = []" by (cases xs) (auto split: option.splits if_splits)
    then have "y = x" using Cons.prems by simp
    then show ?thesis using \<open>xs = []\<close> by (intro exI [of _ "[]"]) simp
  next
    case (Some z)
    from Cons.IH [OF Some] obtain us vs where
      xs: "xs = us @ z # vs" "\<forall>e\<in>set us. snd e < snd z" "\<forall>e\<in>set vs. snd e \<le> snd z" by blast
    show ?thesis
    proof (cases "snd z \<le> snd x")
      case True
      then have "y = x" using Cons.prems Some by simp
      moreover have "\<forall>e\<in>set xs. snd e \<le> snd x" using xs True by auto
      ultimately show ?thesis by (intro exI [of _ "[]"] exI [of _ xs]) simp
    next
      case False
      then have "y = z" using Cons.prems Some by simp
      then show ?thesis using xs False
        by (intro exI [of _ "x # us"] exI [of _ vs]) auto
    qed
  qed
qed

lemma bestEntry_None: "bestEntry xs = None \<longleftrightarrow> xs = []"
  by (cases xs) (auto split: option.splits)

subsubsection \<open>The counting object\<close>

lemma firstSeen_snoc:
  "firstSeen (names @ [k]) = (if k \<in> set names then firstSeen names else firstSeen names @ [k])"
  by (simp add: firstSeen_def)

lemma set_firstSeen: "set (firstSeen names) = set names"
  by (simp add: firstSeen_def)

lemma distinct_firstSeen: "distinct (firstSeen names)"
  by (simp add: firstSeen_def)

lemma setProp_present:
  "distinct K \<Longrightarrow> k \<in> set K \<Longrightarrow>
     setProp k v (map (\<lambda>x. (x, f x)) K) = map (\<lambda>x. (x, if x = k then v else f x)) K"
proof (induction K)
  case Nil
  then show ?case by simp
next
  case (Cons x K)
  show ?case
  proof (cases "x = k")
    case True
    then have "k \<notin> set K" using Cons.prems by simp
    then have "map (\<lambda>x. (x, if x = k then v else f x)) K = map (\<lambda>x. (x, f x)) K"
      by (intro map_cong) auto
    then show ?thesis using True by simp
  next
    case False
    then show ?thesis using Cons by simp
  qed
qed

lemma setProp_absent:
  "k \<notin> set K \<Longrightarrow> setProp k v (map (\<lambda>x. (x, f x)) K) = map (\<lambda>x. (x, f x)) K @ [(k, v)]"
  by (induction K) auto

lemma map_of_graph:
  "map_of (map (\<lambda>x. (x, f x)) K) k = (if k \<in> set K then Some (f k) else None)"
  by (induction K) auto

lemma tally_counts:
  "foldl countService [] names = map (\<lambda>k. (k, int (count_list names k))) (firstSeen names)"
proof (induction names rule: rev_induct)
  case Nil
  then show ?case by (simp add: firstSeen_def)
next
  case (snoc k names)
  let ?K = "firstSeen names"
  let ?g = "\<lambda>x. (x, int (count_list names x))"
  let ?g' = "\<lambda>x. (x, int (count_list (names @ [k]) x))"
  have step: "foldl countService [] (names @ [k]) = countService (map ?g ?K) k"
    using snoc by simp
  show ?case
  proof (cases "k \<in> set names")
    case True
    then have kK: "k \<in> set ?K" by (simp add: set_firstSeen)
    have pos: "count_list names k \<noteq> 0" using True by (simp add: count_list_0_iff)
    have "countService (map ?g ?K) k =
            setProp k (int (count_list names k) + 1) (map ?g ?K)"
      using kK pos by (simp add: countService_def map_of_graph)
    also have "\<dots> = map (\<lambda>x. (x, if x = k then int (count_list names k) + 1
                                        else int (count_list names x))) ?K"
      by (rule setProp_present [OF distinct_firstSeen kK])
    also have "\<dots> = map ?g' ?K" by (intro map_cong) auto
    finally show ?thesis using step True by (simp add: firstSeen_snoc)
  next
    case False
    then have kK: "k \<notin> set ?K" by (simp add: set_firstSeen)
    have zero: "count_list names k = 0" using False by (simp add: count_list_0_iff)
    have "countService (map ?g ?K) k = setProp k 1 (map ?g ?K)"
      using kK by (simp add: countService_def map_of_graph)
    also have "\<dots> = map ?g ?K @ [(k, 1)]" by (rule setProp_absent [OF kK])
    finally have a: "foldl countService [] (names @ [k]) = map ?g ?K @ [(k, 1)]"
      using step by simp
    have b: "map ?g ?K = map ?g' ?K" using kK by (intro map_cong) auto
    have c: "?g' k = (k, 1)" using zero by simp
    have "firstSeen (names @ [k]) = ?K @ [k]" using False by (simp add: firstSeen_snoc)
    then have "map ?g' (firstSeen (names @ [k])) = map ?g' ?K @ [?g' k]" by simp
    then show ?thesis unfolding a b c by simp
  qed
qed

lemma takeWhile_append_mono:
  assumes "p \<in> set (takeWhile P xs)"
  shows "p \<in> set (takeWhile P (xs @ ys))"
proof (cases "\<forall>x\<in>set xs. P x")
  case True
  then have "takeWhile P (xs @ ys) = xs @ takeWhile P ys" by simp
  moreover have "p \<in> set xs" using assms by (auto dest: set_takeWhileD)
  ultimately show ?thesis by simp
next
  case False
  then obtain x where "x \<in> set xs" "\<not> P x" by blast
  then have "takeWhile P (xs @ ys) = takeWhile P xs" by simp
  then show ?thesis using assms by simp
qed

lemma firstSeen_before:
  "firstSeen names = u @ p # v \<Longrightarrow> k \<in> set v \<Longrightarrow> p \<in> set (takeWhile (\<lambda>x. x \<noteq> k) names)"
proof (induction names arbitrary: u v rule: rev_induct)
  case Nil
  then show ?case by (simp add: firstSeen_def)
next
  case (snoc x names)
  show ?case
  proof (cases "x \<in> set names")
    case True
    then have "firstSeen names = u @ p # v" using snoc.prems by (simp add: firstSeen_snoc)
    from snoc.IH [of u v, OF this snoc.prems(2)] show ?thesis by (rule takeWhile_append_mono)
  next
    case False
    then have e: "firstSeen names @ [x] = u @ p # v" using snoc.prems by (simp add: firstSeen_snoc)
    have "v \<noteq> []" using snoc.prems by auto
    then obtain v' y where v: "v = v' @ [y]" by (metis rev_exhaust)
    then have K: "firstSeen names = u @ p # v'" and y: "y = x" using e by auto
    show ?thesis
    proof (cases "k \<in> set v'")
      case True
      from snoc.IH [of u v', OF K this] show ?thesis by (rule takeWhile_append_mono)
    next
      case False2: False
      then have kx: "k = x" using snoc.prems(2) v y by auto
      have "p \<in> set names" using K set_firstSeen [of names] by auto
      moreover have "\<forall>z\<in>set names. z \<noteq> k" using kx False by auto
      ultimately show ?thesis by simp
    qed
  qed
qed

subsubsection \<open>Enumeration order of the entries\<close>

lemma insort_key_map: "insort_key h (g x) (map g ys) = map g (insort_key (\<lambda>a. h (g a)) x ys)"
  by (induction ys) auto

lemma sort_key_map_commute: "sort_key h (map g xs) = map g (sort_key (\<lambda>a. h (g a)) xs)"
  by (induction xs) (auto simp: insort_key_map)

lemma Object_entries_graph:
  "Object_entries (map (\<lambda>k. (k, f k)) K) =
     map (\<lambda>k. (k, f k))
       (sort_key (\<lambda>k. case arrayIndex k of Some n \<Rightarrow> n | None \<Rightarrow> 0)
          (filter (\<lambda>k. arrayIndex k \<noteq> None) K)
        @ filter (\<lambda>k. arrayIndex k = None) K)"
  by (simp add: Object_entries_def filter_map sort_key_map_commute o_def)

lemma append_split_right:
  assumes "xs @ ys = u @ p # v" "p \<notin> set xs"
  shows "\<exists>u2. u = xs @ u2 \<and> ys = u2 @ p # v"
proof -
  from assms(1) consider us where "xs = u @ us" "us @ ys = p # v"
    | us where "xs @ us = u" "ys = us @ p # v"
    by (auto simp: append_eq_append_conv2)
  then show ?thesis
  proof cases
    case 1
    then have "us = []" using assms(2) by (cases us) auto
    then show ?thesis using 1 by simp
  next
    case 2
    then show ?thesis by auto
  qed
qed

lemma append_split_left:
  assumes "xs @ ys = u @ p # v" "p \<notin> set ys"
  shows "\<exists>v1. xs = u @ p # v1 \<and> v = v1 @ ys"
proof -
  from assms(1) consider us where "xs = u @ us" "us @ ys = p # v"
    | us where "xs @ us = u" "ys = us @ p # v"
    by (auto simp: append_eq_append_conv2)
  then show ?thesis
  proof cases
    case 1
    then show ?thesis using assms(2) by (cases us) auto
  next
    case 2
    then show ?thesis using assms(2) by auto
  qed
qed

lemma filter_split:
  "filter P K = u @ p # v \<Longrightarrow> \<exists>u' v'. K = u' @ p # v' \<and> v = filter P v'"
proof (induction K arbitrary: u)
  case Nil
  then show ?case by simp
next
  case (Cons x K)
  show ?case
  proof (cases "P x")
    case False
    then have "filter P K = u @ p # v" using Cons.prems by simp
    from Cons.IH [OF this] obtain u' v' where "K = u' @ p # v'" "v = filter P v'" by blast
    then show ?thesis by (intro exI [of _ "x # u'"] exI [of _ v']) simp
  next
    case True
    then have e: "x # filter P K = u @ p # v" using Cons.prems by simp
    show ?thesis
    proof (cases u)
      case Nil
      then have "x = p" "v = filter P K" using e by simp_all
      then show ?thesis by (intro exI [of _ "[]"] exI [of _ K]) simp
    next
      case (Cons y u1)
      then have "filter P K = u1 @ p # v" using e by simp
      from Cons.IH [OF this] obtain u' v' where "K = u' @ p # v'" "v = filter P v'" by blast
      then show ?thesis by (intro exI [of _ "x # u'"] exI [of _ v']) simp
    qed
  qed
qed

lemma enumeration_order:
  fixes K :: "jsstring list"
  defines "idx \<equiv> \<lambda>k. case arrayIndex k of Some n \<Rightarrow> n | None \<Rightarrow> 0"
  assumes K: "distinct K"
    and e: "sort_key idx (filter (\<lambda>k. arrayIndex k \<noteq> None) K) @ filter (\<lambda>k. arrayIndex k = None) K
              = u @ p # v"
    and k: "k \<in> set v"
  shows "case (arrayIndex p, arrayIndex k) of
           (Some i, Some j) \<Rightarrow> i < j
         | (Some i, None) \<Rightarrow> True
         | (None, Some j) \<Rightarrow> False
         | (None, None) \<Rightarrow> \<exists>u' v'. K = u' @ p # v' \<and> k \<in> set v'"
proof -
  let ?A = "sort_key idx (filter (\<lambda>k. arrayIndex k \<noteq> None) K)"
  let ?B = "filter (\<lambda>k. arrayIndex k = None) K"
  have "distinct (?A @ ?B)" using K by auto
  then have d: "distinct (u @ p # v)" by (simp only: e)
  then have kp: "k \<noteq> p" using k by auto
  show ?thesis
  proof (cases "arrayIndex p")
    case None
    then have "p \<notin> set ?A" by auto
    from append_split_right [OF e this] obtain u2 where B: "?B = u2 @ p # v" by blast
    then have "k \<in> set ?B" using k by simp
    then have kn: "arrayIndex k = None" by simp
    from filter_split [OF B] obtain u' v' where "K = u' @ p # v'" "v = filter (\<lambda>k. arrayIndex k = None) v'"
      by blast
    then have "\<exists>u' v'. K = u' @ p # v' \<and> k \<in> set v'" using k by auto
    then show ?thesis using None kn by simp
  next
    case (Some i)
    show ?thesis
    proof (cases "arrayIndex k")
      case None
      then show ?thesis using Some by simp
    next
      case some_j: (Some j)
      have "p \<notin> set ?B" using Some by simp
      from append_split_left [OF e this] obtain v1 where A: "?A = u @ p # v1" and v: "v = v1 @ ?B"
        by blast
      have "k \<notin> set ?B" using some_j by simp
      then have kv: "k \<in> set v1" using k v by auto
      have "sorted (map idx ?A)" by (rule sorted_sort_key)
      then have "sorted (map idx (u @ p # v1))" by (simp only: A)
      then have "idx p \<le> idx k" using kv by (auto simp: sorted_append)
      then have "i \<le> j" using Some some_j by (simp add: idx_def)
      moreover have "i \<noteq> j" using arrayIndex_inj [of p i k] Some some_j kp by auto
      ultimately show ?thesis using Some some_j by simp
    qed
  qed
qed

lemma popularService_core:
  fixes pa :: "appointment list"
  defines "names \<equiv> map service pa"
  defines "p \<equiv> popularService (periodStats pa)"
  shows "(names = [] \<longrightarrow> p = str ''-'')
       \<and> (names \<noteq> [] \<longrightarrow>
            p \<in> set names
            \<and> (\<forall>k\<in>set names. count_list names k \<le> count_list names p)
            \<and> (\<forall>k\<in>set names. k \<noteq> p \<and> count_list names k = count_list names p
                   \<longrightarrow> enumeratedBefore names p k))"
proof -
  define K where "K = firstSeen names"
  define g where "g = (\<lambda>k. (k, int (count_list names k)))"
  define ord where "ord = sort_key (\<lambda>k. case arrayIndex k of Some n \<Rightarrow> n | None \<Rightarrow> 0)
                             (filter (\<lambda>k. arrayIndex k \<noteq> None) K)
                          @ filter (\<lambda>k. arrayIndex k = None) K"
  define sorted_entries where
    "sorted_entries = js_sort (\<lambda>a b. snd b - snd a) (map g ord)"
  have obj: "foldl (\<lambda>obj apt. countService obj (service apt)) [] pa = map g K"
    unfolding K_def g_def names_def using tally_counts [of "map service pa"]
    by (simp add: foldl_map)
  have entries: "Object_entries (map g K) = map g ord"
    unfolding g_def ord_def by (rule Object_entries_graph)
  have p: "p = (case sorted_entries of [] \<Rightarrow> str ''-'' | e # _ \<Rightarrow> fst e)"
    unfolding p_def sorted_entries_def periodStats_def Let_def by (simp add: obj entries)
  have set_ord: "set ord = set names" unfolding ord_def K_def by (auto simp: set_firstSeen)
  have head: "(case sorted_entries of [] \<Rightarrow> None | e # _ \<Rightarrow> Some e) = bestEntry (map g ord)"
    unfolding sorted_entries_def by (rule js_sort_head)
  have empty: "p = str ''-''" if "names = []"
  proof -
    have "ord = []" using that set_ord by simp
    then have "sorted_entries = []" by (simp add: sorted_entries_def js_sort_def)
    then show ?thesis using p by simp
  qed
  have nonempty: "p \<in> set names
            \<and> (\<forall>k\<in>set names. count_list names k \<le> count_list names p)
            \<and> (\<forall>k\<in>set names. k \<noteq> p \<and> count_list names k = count_list names p
                   \<longrightarrow> enumeratedBefore names p k)" if "names \<noteq> []"
  proof -
    have "map g ord \<noteq> []" using that set_ord by auto
    then obtain y where y: "bestEntry (map g ord) = Some y"
      using bestEntry_None [of "map g ord"] by (cases "bestEntry (map g ord)") auto
    then have "p = fst y" using head p by (cases sorted_entries) auto
    from bestEntry_split [OF y] obtain us vs where
      sp: "map g ord = us @ y # vs" and lt: "\<forall>e\<in>set us. snd e < snd y"
      and le: "\<forall>e\<in>set vs. snd e \<le> snd y" by blast
    from sp obtain u rest where ord1: "ord = u @ rest" and us: "us = map g u" and r: "y # vs = map g rest"
      by (auto simp: map_eq_append_conv)
    from r obtain q v where rest: "rest = q # v" and yq: "y = g q" and vs: "vs = map g v"
      by (cases rest) auto
    have pq: "p = q" using \<open>p = fst y\<close> yq by (simp add: g_def)
    have ord2: "ord = u @ p # v" using ord1 rest pq by simp
    have ltu: "\<forall>x\<in>set u. count_list names x < count_list names p"
      using lt us yq pq by (auto simp: g_def)
    have lev: "\<forall>x\<in>set v. count_list names x \<le> count_list names p"
      using le vs yq pq by (auto simp: g_def)
    have mem: "p \<in> set names" using ord2 set_ord by auto
    have max: "\<forall>k\<in>set names. count_list names k \<le> count_list names p"
    proof
      fix k assume "k \<in> set names"
      then have "k \<in> set u \<or> k = p \<or> k \<in> set v" using set_ord ord2 by auto
      then show "count_list names k \<le> count_list names p" using ltu lev by auto
    qed
    have tie: "enumeratedBefore names p k"
      if "k \<in> set names" "k \<noteq> p" "count_list names k = count_list names p" for k
    proof -
      have "k \<in> set u \<or> k = p \<or> k \<in> set v" using that(1) set_ord ord2 by auto
      then have kv: "k \<in> set v" using that(2,3) ltu by auto
      have dK: "distinct K" unfolding K_def by (rule distinct_firstSeen)
      note eo = enumeration_order [OF dK ord2 [unfolded ord_def] kv]
      show ?thesis
      proof (cases "arrayIndex p = None \<and> arrayIndex k = None")
        case True
        then obtain u' v' where "K = u' @ p # v'" "k \<in> set v'" using eo by auto
        then have "p \<in> set (takeWhile (\<lambda>x. x \<noteq> k) names)"
          unfolding K_def by (rule firstSeen_before)
        then show ?thesis using True by (simp add: enumeratedBefore_def)
      next
        case False
        then show ?thesis using eo by (auto simp: enumeratedBefore_def split: option.splits)
      qed
    qed
    show ?thesis using mem max tie by blast
  qed
  show ?thesis using empty nonempty by blast
qed

subsubsection \<open>The claim\<close>

text \<open>
  Claim C6: (as amended) for a valid period tag, and service names none of which is inherited
  from \<open>Object.prototype\<close>: \<open>popularService\<close> is \<open>-\<close> when no appointment passes the filter;
  otherwise it is a service name of highest occurrence count among the filtered appointments, and
  it is enumerated before every other name of the same count: array-index names come first in
  ascending numeric order, then the other names in the order of first encounter.
\<close>

theorem popularService_enumeration_order:
  assumes "periodStart h period (case referenceDate of None \<Rightarrow> clock h | Some d \<Rightarrow> d) = Inr startDate"
    and "names = map service (periodAppointments h startDate appointments)"
    and "\<forall>k\<in>set names. k \<notin> set objectPrototypeNames"
  shows "\<exists>r. getStatsForPeriod h appointments period referenceDate = Inr r
           \<and> (names = [] \<longrightarrow> popularService r = str ''-'')
           \<and> (names \<noteq> [] \<longrightarrow>
                popularService r \<in> set names
                \<and> (\<forall>k\<in>set names. count_list names k \<le> count_list names (popularService r))
                \<and> (\<forall>k\<in>set names.
                       k \<noteq> popularService r
                       \<and> count_list names k = count_list names (popularService r)
                       \<longrightarrow> enumeratedBefore names (popularService r) k))"
proof -
  have "getStatsForPeriod h appointments period referenceDate =
          Inr (periodStats (periodAppointments h startDate appointments))"
    using assms(1) by (simp add: getStatsForPeriod_def)
  then show ?thesis
    using popularService_core [of "periodAppointments h startDate appointments"]
    unfolding assms(2) by simp
qed

lemma tie_period:
  "periodAppointments utcHost (Some 1736294400000) tieAppointments = tieAppointments"
  by (simp add: periodAppointments_def tieAppointments_def mkApt_def js_ge_def utc_defs)

lemma tie_stats:
  "periodStats tieAppointments =
     \<lparr>totalIncome = Finite 200, totalAppointments = 2, completedAppointments = 0,
      avgIncome = Finite 100, popularService = str ''1'', incomeChange = Finite 18\<rparr>"
proof -
  have total: "foldl (\<lambda>sum apt. js_add sum (price apt)) (Finite 0) tieAppointments = Finite 200"
    by (simp add: tieAppointments_def mkApt_def round64_numeral)
  have n: "int (length tieAppointments) = 2" by (simp add: tieAppointments_def)
  have comp: "int (length (filter (\<lambda>apt. status apt = str ''completed'') tieAppointments)) = 0"
    by (simp add: tieAppointments_def mkApt_def str_def)
  have pop: "js_sort (\<lambda>a b. snd b - snd a)
               (Object_entries (foldl (\<lambda>obj apt. countService obj (service apt)) [] tieAppointments))
             = [(str ''1'', 1), (str ''2'', 1)]"
    by (simp add: tieAppointments_def mkApt_def countService_def Object_entries_def
        arrayIndex_def js_sort_def utc_defs)
  have avg: "js_round (js_div (Finite 200) (Finite (of_int 2))) = Finite 100"
    by (simp add: round64_numeral floor_rat_numeral)
  have "2 powi (- 1019) \<le> (200::rat)" "(200::rat) < overflow" using tiny overflow_1000 by simp_all
  from incomeChange_constant [OF this]
  have chg: "(if js_lt (Finite 0) (js_mul (Finite 200) (round64 (85 / 100)))
              then js_round (js_mul (js_div (js_sub (Finite 200) (js_mul (Finite 200) (round64 (85 / 100))))
                                            (js_mul (Finite 200) (round64 (85 / 100)))) (Finite 100))
              else Finite 0) = Finite 18"
    by (simp only: if_True)
  show ?thesis
    unfolding periodStats_def Let_def total n comp pop avg chg by simp
qed

text \<open>
  The claim C6 as stated (ties go to the service encountered first) fails: in a window with one
  appointment for service \<open>2\<close> followed by one for service \<open>1\<close>, the code reports \<open>1\<close>.
\<close>

theorem popularService_first_encounter_counterexample:
  "getStatsForPeriod utcHost tieAppointments (str ''week'') (Some (Some 1736899200000)) =
     Inr \<lparr>totalIncome = Finite 200, totalAppointments = 2, completedAppointments = 0,
          avgIncome = Finite 100, popularService = str ''1'', incomeChange = Finite 18\<rparr>
   \<and> mostFrequentFirst
        (map service (periodAppointments utcHost (Some 1736294400000) tieAppointments)) = str ''2''"
proof -
  have "getStatsForPeriod utcHost tieAppointments (str ''week'') (Some (Some 1736899200000)) =
          Inr (periodStats tieAppointments)"
    using periodStart_week by (simp add: getStatsForPeriod_def tie_period)
  moreover have "mostFrequentFirst (map service tieAppointments) = str ''2''"
    by (simp add: mostFrequentFirst_def tieAppointments_def mkApt_def str_def)
  ultimately show ?thesis by (simp only: tie_stats tie_period)
qed

theorem popularService_enumeration_order_witness:
  "\<exists>r. getStatsForPeriod utcHost mockAppointments (str ''week'') (Some (Some 1736899200000)) = Inr r
      \<and> popularService r = str ''haircut''"
proof -
  define names where "names = map service (periodAppointments utcHost (Some 1736294400000) mockAppointments)"
  have n: "names = [str ''haircut'', str ''haircut + beard'', str ''beard'', str ''haircut'']"
    unfolding names_def mock_period by (simp add: mkApt_def)
  have s: "periodStart utcHost (str ''week'')
             (case Some (Some 1736899200000) of None \<Rightarrow> clock utcHost | Some d \<Rightarrow> d)
           = Inr (Some 1736294400000)"
    using periodStart_week by simp
  have o: "\<forall>k\<in>set names. k \<notin> set objectPrototypeNames"
    unfolding n by (simp add: objectPrototypeNames_def str_def)
  have ne: "names \<noteq> []" using n by simp
  have c: "count_list names (str ''haircut'') = 2" "count_list names (str ''haircut + beard'') = 1"
    "count_list names (str ''beard'') = 1"
    unfolding n by (simp_all add: str_def)
  from popularService_enumeration_order [OF s names_def o] ne
  obtain r where r: "getStatsForPeriod utcHost mockAppointments (str ''week'') (Some (Some 1736899200000)) = Inr r"
    and m: "popularService r \<in> set names"
    and mx: "\<forall>k\<in>set names. count_list names k \<le> count_list names (popularService r)"
    by blast
  have "str ''haircut'' \<in> set names" using n by simp
  then have "2 \<le> count_list names (popularService r)" using mx c(1) by metis
  moreover have "popularService r = str ''haircut'' \<or> popularService r = str ''haircut + beard''
      \<or> popularService r = str ''beard''" using m unfolding n by auto
  ultimately have "popularService r = str ''haircut''" using c by auto
  then show ?thesis using r by blast
qed

subsection \<open>updateHour\<close>


lemma map_of_setProp: "map_of (setProp k v ps) = (map_of ps)(k \<mapsto> v)"
  by (induction ps) (auto simp: fun_eq_iff)

text \<open>
  Claim C4: for a list of working hours stored at \<open>hours\<close> and an index \<open>i\<close> in range whose entry
  is an object of the store with the properties \<open>ps0\<close>, \<open>updateHour\<close> returns a newly allocated
  list of the same length whose entries other than \<open>i\<close> are those of the input, and whose entry
  \<open>i\<close> is a newly allocated object with field \<open>f\<close> equal to \<open>v\<close> and every other field equal to
  that of \<open>ps0\<close>; every cell of the store that existed before the call, the input list and its
  entries among them, is unchanged.
\<close>

theorem updateHour_copy_on_write:
  assumes "hours < length h" and "h ! hours = Array xs" and "i < length xs"
    and "xs ! i = VRef a" and "a < length h" and "h ! a = Object ps0"
  shows "\<exists>h' r ys entry ps.
           updateHour h hours i f v = Inr (h', r)
           \<and> (\<forall>b<length h. h' ! b = h ! b)
           \<and> length h \<le> r \<and> r < length h' \<and> h' ! r = Array ys
           \<and> length ys = length xs
           \<and> (\<forall>j<length xs. j \<noteq> i \<longrightarrow> ys ! j = xs ! j)
           \<and> ys ! i = VRef entry \<and> length h \<le> entry \<and> entry < length h' \<and> entry \<noteq> r
           \<and> h' ! entry = Object ps
           \<and> map_of ps f = Some v
           \<and> (\<forall>g. g \<noteq> f \<longrightarrow> map_of ps g = map_of ps0 g)"
proof -
  let ?r = "length h" and ?e = "Suc (length h)"
  let ?h1 = "h @ [Array xs]"
  let ?ps = "setProp f v (ownProps ?h1 (xs ! i))"
  let ?ys = "xs[i := VRef ?e]"
  let ?h' = "(?h1 @ [Object ?ps])[?r := Array ?ys]"
  have op: "ownProps ?h1 (xs ! i) = ps0"
    using assms(4,5,6) by (simp add: ownProps_def nth_append)
  have call: "updateHour h hours i f v = Inr (?h', ?r)"
    using assms(1,2,3) by (simp add: updateHour_def alloc_def readAt_def storeAt_def)
  have frame: "\<forall>b<length h. ?h' ! b = h ! b" by (simp add: nth_append)
  have r: "?h' ! ?r = Array ?ys" by (simp add: nth_append)
  have e: "?h' ! ?e = Object ?ps" by (simp add: nth_append)
  have others: "\<forall>j<length xs. j \<noteq> i \<longrightarrow> ?ys ! j = xs ! j" by simp
  have entry: "?ys ! i = VRef ?e" using assms(3) by simp
  have f: "map_of ?ps f = Some v" by (simp add: map_of_setProp)
  have g: "\<forall>g. g \<noteq> f \<longrightarrow> map_of ?ps g = map_of ps0 g"
    by (simp add: map_of_setProp op)
  show ?thesis
    apply (rule exI [of _ ?h'], rule exI [of _ ?r], rule exI [of _ ?ys], rule exI [of _ ?e],
        rule exI [of _ ?ps])
    using call frame r e others entry f g by simp
qed

theorem updateHour_copy_on_write_witness:
  "\<exists>h' r ys entry ps.
     updateHour mockHours 3 0 (str ''open'') (VStr (str ''10:00'')) = Inr (h', r)
     \<and> (\<forall>a<4. h' ! a = mockHours ! a)
     \<and> h' ! r = Array ys \<and> ys ! 1 = VRef 1 \<and> ys ! 2 = VRef 2 \<and> ys ! 0 = VRef entry \<and> 4 \<le> entry
     \<and> h' ! entry = Object ps
     \<and> map_of ps (str ''day'') = Some (VStr (str ''Sunday''))
     \<and> map_of ps (str ''open'') = Some (VStr (str ''10:00''))
     \<and> map_of ps (str ''close'') = Some (VStr (str ''19:00''))
     \<and> map_of ps (str ''isOpen'') = Some (VBool True)"
proof -
  have a: "3 < length mockHours" "mockHours ! 3 = Array [VRef 0, VRef 1, VRef 2]"
    "0 < length [VRef 0, VRef 1, VRef 2]" "length mockHours = 4"
    "[VRef 0, VRef 1, VRef 2] ! 0 = VRef 0" "0 < length mockHours"
    "mockHours ! 0 = Object [(str ''day'', VStr (str ''Sunday'')), (str ''open'', VStr (str ''09:00'')),
                             (str ''close'', VStr (str ''19:00'')), (str ''isOpen'', VBool True)]"
    by (simp_all add: mockHours_def hourEntry_def)
  have n: "str ''day'' \<noteq> str ''open''" "str ''close'' \<noteq> str ''open''" "str ''isOpen'' \<noteq> str ''open''"
    by (simp_all add: str_def)
  have c: "map_of [(str ''day'', VStr (str ''Sunday'')), (str ''open'', VStr (str ''09:00'')),
                   (str ''close'', VStr (str ''19:00'')), (str ''isOpen'', VBool True)] (str ''day'')
             = Some (VStr (str ''Sunday''))"
    "map_of [(str ''day'', VStr (str ''Sunday'')), (str ''open'', VStr (str ''09:00'')),
                   (str ''close'', VStr (str ''19:00'')), (str ''isOpen'', VBool True)] (str ''close'')
             = Some (VStr (str ''19:00''))"
    "map_of [(str ''day'', VStr (str ''Sunday'')), (str ''open'', VStr (str ''09:00'')),
                   (str ''close'', VStr (str ''19:00'')), (str ''isOpen'', VBool True)] (str ''isOpen'')
             = Some (VBool True)"
    by (simp_all add: str_def)
  from updateHour_copy_on_write [OF a(1,2,3,5,6,7), of "str ''open''" "VStr (str ''10:00'')"]
  obtain h' r ys entry ps where
    "updateHour mockHours 3 0 (str ''open'') (VStr (str ''10:00'')) = Inr (h', r)"
    "\<forall>a<length mockHours. h' ! a = mockHours ! a" "h' ! r = Array ys"
    "\<forall>j<length [VRef 0, VRef 1, VRef 2]. j \<noteq> 0 \<longrightarrow> ys ! j = [VRef 0, VRef 1, VRef (2::nat)] ! j"
    "ys ! 0 = VRef entry" "length mockHours \<le> entry" "h' ! entry = Object ps"
    "map_of ps (str ''open'') = Some (VStr (str ''10:00''))"
    "\<forall>g. g \<noteq> str ''open'' \<longrightarrow>
         map_of ps g = map_of [(str ''day'', VStr (str ''Sunday'')), (str ''open'', VStr (str ''09:00'')),
                              (str ''close'', VStr (str ''19:00'')), (str ''isOpen'', VBool True)] g"
    by blast
  then show ?thesis using a(4) c n
    by (intro exI [of _ h'] exI [of _ r] exI [of _ ys] exI [of _ entry] exI [of _ ps]) auto
qed

end
